theory Spec2Isabelle
  imports Main "HOL-Library.Word" "HOL-Library.Multiset"
begin

section \<open>Priorities and their platform encoding\<close>

text \<open>
  \<^verbatim>\<open>enum class Priority : int8_t\<close> has five enumerators whose underlying values are
  the macros \<^verbatim>\<open>THREAD_PRIORITY_*\<close>. With \<^verbatim>\<open>__linux__\<close> the header defines the macros
  itself (99, 75, 50, 25, 1) and \<^verbatim>\<open>COMPARATOR\<close> is \<^verbatim>\<open>>\<close>; otherwise the macros
  come from \<^verbatim>\<open>Windows.h\<close>, which is not part of the repository, and \<^verbatim>\<open>COMPARATOR\<close>
  is \<^verbatim>\<open><\<close>. The Windows macros are therefore a parameter of the platform.
\<close>

datatype Priority = Lowest | Low | Normal | High | Realtime

record thread_priority_macros =
  THREAD_PRIORITY_LOWEST :: int
  THREAD_PRIORITY_BELOW_NORMAL :: int
  THREAD_PRIORITY_NORMAL :: int
  THREAD_PRIORITY_ABOVE_NORMAL :: int
  THREAD_PRIORITY_HIGHEST :: int

datatype platform = Linux | Windows thread_priority_macros

fun macros :: "platform \<Rightarrow> thread_priority_macros" where
  "macros Linux =
     \<lparr>THREAD_PRIORITY_LOWEST = 99, THREAD_PRIORITY_BELOW_NORMAL = 75,
      THREAD_PRIORITY_NORMAL = 50, THREAD_PRIORITY_ABOVE_NORMAL = 25,
      THREAD_PRIORITY_HIGHEST = 1\<rparr>"
| "macros (Windows m) = m"

text \<open>The enumerator initialisers, in the order of the enum's declaration.\<close>

fun enumerator :: "thread_priority_macros \<Rightarrow> Priority \<Rightarrow> int" where
  "enumerator m Lowest = THREAD_PRIORITY_LOWEST m"
| "enumerator m Low = THREAD_PRIORITY_BELOW_NORMAL m"
| "enumerator m Normal = THREAD_PRIORITY_NORMAL m"
| "enumerator m High = THREAD_PRIORITY_ABOVE_NORMAL m"
| "enumerator m Realtime = THREAD_PRIORITY_HIGHEST m"

text \<open>The value a \<^verbatim>\<open>Priority\<close> holds: an \<^verbatim>\<open>int8_t\<close>.\<close>

definition underlying :: "platform \<Rightarrow> Priority \<Rightarrow> 8 word" where
  "underlying pf p = word_of_int (enumerator (macros pf) p)"

text \<open>\<^verbatim>\<open>static_cast<int>(task.second)\<close>.\<close>

definition priority_value :: "platform \<Rightarrow> Priority \<Rightarrow> int" where
  "priority_value pf p = sint (underlying pf p)"

text \<open>
  The macro \<^verbatim>\<open>COMPARATOR\<close> applied to two enum values: the built-in comparison of a
  scoped enumeration compares the (signed) underlying values.
\<close>

fun COMPARATOR :: "platform \<Rightarrow> 8 word \<Rightarrow> 8 word \<Rightarrow> bool" where
  "COMPARATOR Linux a b = (b <s a)"
| "COMPARATOR (Windows m) a b = (a <s b)"

type_synonym 'a TaskPriority = "'a \<times> Priority"

definition TaskPriorityComparator ::
  "platform \<Rightarrow> 'a TaskPriority \<Rightarrow> 'a TaskPriority \<Rightarrow> bool" where
  "TaskPriorityComparator pf first second =
     COMPARATOR pf (underlying pf (snd first)) (underlying pf (snd second))"

text \<open>
  The Windows macros must fit the enum's underlying type (a narrowing enumerator
  initialiser does not compile) and, for the queue to order tasks as intended, grow
  from \<^verbatim>\<open>THREAD_PRIORITY_LOWEST\<close> to \<^verbatim>\<open>THREAD_PRIORITY_HIGHEST\<close>. The Windows SDK
  defines them as -2, -1, 0, 1, 2.
\<close>

fun platform_ok :: "platform \<Rightarrow> bool" where
  "platform_ok Linux = True"
| "platform_ok (Windows m) =
     (- 128 \<le> THREAD_PRIORITY_LOWEST m \<and>
      THREAD_PRIORITY_LOWEST m < THREAD_PRIORITY_BELOW_NORMAL m \<and>
      THREAD_PRIORITY_BELOW_NORMAL m < THREAD_PRIORITY_NORMAL m \<and>
      THREAD_PRIORITY_NORMAL m < THREAD_PRIORITY_ABOVE_NORMAL m \<and>
      THREAD_PRIORITY_ABOVE_NORMAL m < THREAD_PRIORITY_HIGHEST m \<and>
      THREAD_PRIORITY_HIGHEST m \<le> 127)"

definition windows_sdk :: platform where
  "windows_sdk =
     Windows \<lparr>THREAD_PRIORITY_LOWEST = - 2, THREAD_PRIORITY_BELOW_NORMAL = - 1,
       THREAD_PRIORITY_NORMAL = 0, THREAD_PRIORITY_ABOVE_NORMAL = 1,
       THREAD_PRIORITY_HIGHEST = 2\<rparr>"

text \<open>
  The specification's abstract total order
  \<^verbatim>\<open>Realtime > High > Normal > Low > Lowest\<close>, as a rank. It is written from the
  specification's words and is what the code's comparator is compared with.
\<close>

fun abstract_rank :: "Priority \<Rightarrow> nat" where
  "abstract_rank Lowest = 0"
| "abstract_rank Low = 1"
| "abstract_rank Normal = 2"
| "abstract_rank High = 3"
| "abstract_rank Realtime = 4"

section \<open>The priority queue\<close>

text \<open>
  \<^verbatim>\<open>TasksPriorityQueue\<close> is \<^verbatim>\<open>std::priority_queue\<close> over a vector with the comparator
  above. The adaptor belongs to the C++ standard library, whose contract is:
  \<^verbatim>\<open>push\<close>/\<^verbatim>\<open>emplace\<close> add one element, \<^verbatim>\<open>top\<close> is an element \<open>x\<close> of the queue such
  that \<^verbatim>\<open>comp(x, y)\<close> is false for every element \<open>y\<close>, \<^verbatim>\<open>pop\<close> removes that element,
  and which of several such elements is on top is left open. The model keeps the
  pending records in a list in the order of their insertion; \<open>pq_top\<close> scans it and
  keeps the earliest record that no other beats. \<open>pq_is_top\<close> is the contract itself.
\<close>

type_synonym 'a TasksPriorityQueue = "'a TaskPriority list"

definition pq_push :: "'a TaskPriority \<Rightarrow> 'a TasksPriorityQueue \<Rightarrow> 'a TasksPriorityQueue" where
  "pq_push x q = q @ [x]"

definition pq_emplace :: "'a TaskPriority \<Rightarrow> 'a TasksPriorityQueue \<Rightarrow> 'a TasksPriorityQueue" where
  "pq_emplace x q = q @ [x]"

fun pq_scan :: "('b \<Rightarrow> 'b \<Rightarrow> bool) \<Rightarrow> 'b \<Rightarrow> 'b list \<Rightarrow> 'b" where
  "pq_scan cmp best [] = best"
| "pq_scan cmp best (y # ys) = pq_scan cmp (if cmp best y then y else best) ys"

fun pq_top :: "('b \<Rightarrow> 'b \<Rightarrow> bool) \<Rightarrow> 'b list \<Rightarrow> 'b option" where
  "pq_top cmp [] = None"
| "pq_top cmp (x # xs) = Some (pq_scan cmp x xs)"

fun pq_pop :: "('b \<Rightarrow> 'b \<Rightarrow> bool) \<Rightarrow> 'b list \<Rightarrow> 'b list" where
  "pq_pop cmp [] = []"
| "pq_pop cmp (x # xs) = remove1 (pq_scan cmp x xs) (x # xs)"

definition pq_is_top :: "('b \<Rightarrow> 'b \<Rightarrow> bool) \<Rightarrow> 'b list \<Rightarrow> 'b \<Rightarrow> bool" where
  "pq_is_top cmp q x = (x \<in> set q \<and> list_all (\<lambda>y. \<not> cmp x y) q)"

section \<open>The pool and its threads\<close>

text \<open>
  A worker is identified by its index in \<^verbatim>\<open>m_threads\<close>. Its control point is one of:
  \<^item> \<open>Locking\<close>: line 99, about to construct the \<^verbatim>\<open>unique_lock\<close>;
  \<^item> \<open>Checking\<close>: line 101, holding the lock, about to evaluate the wait predicate;
  \<^item> \<open>Sleeping\<close>: the predicate was false, about to enter \<^verbatim>\<open>m_cv.wait(lock)\<close>, which
    releases the lock and blocks in one atomic step;
  \<^item> \<open>Blocked\<close>: inside \<^verbatim>\<open>m_cv.wait(lock)\<close>; it goes on once it has been notified and
    has the lock again;
  \<^item> \<open>Dequeuing\<close>: line 102, the wait has returned, the lock is held;
  \<^item> \<open>Adapting t\<close>: line 112, record \<open>t\<close> popped, the lock released;
  \<^item> \<open>Executing t\<close>: line 135, about to call the task;
  \<^item> \<open>Terminal\<close>: the loop was left by \<^verbatim>\<open>break\<close>.
  \<^verbatim>\<open>m_cv.wait(lock, pred)\<close> is \<^verbatim>\<open>while (!pred()) wait(lock);\<close>.
\<close>

type_synonym tid = nat

datatype 'a pc =
    Locking
  | Checking
  | Sleeping
  | Blocked
  | Dequeuing
  | Adapting "'a TaskPriority"
  | Executing "'a TaskPriority"
  | Terminal

text \<open>The destructor: line 143, line 144, then the join of every \<^verbatim>\<open>std::jthread\<close>.\<close>

datatype dtor_pc = Alive | Notifying | Joining | Destroyed

text \<open>
  What a run leaves behind: the calls of the native priority interface (the query,
  and the set call with the priority asked for, on Linux under \<^verbatim>\<open>SCHED_FIFO\<close>), the
  diagnostics written to \<^verbatim>\<open>std::cerr\<close>, and the calls of task callables. A task is a
  value of type \<open>'a\<close>; what it does when called is outside the pool.
\<close>

datatype 'a event =
    GetPriority tid
  | SetPriority tid int
  | Diagnostic tid string
  | Invoked tid 'a

text \<open>
  The members of \<^verbatim>\<open>PriorityThreadPool\<close>, followed by what is not a member: the
  control point of every worker, that of the destructor, and the trace.
  \<open>m_cv\<close> is the list of workers blocked on the condition variable, \<open>m_mutex\<close> the
  worker that holds the mutex exclusively.
\<close>

record 'a pool =
  m_quit :: bool
  m_tasks :: "'a TasksPriorityQueue"
  m_threads :: "tid list"
  m_cv :: "tid list"
  m_mutex :: "tid option"
  control :: "tid \<Rightarrow> 'a pc"
  dtor :: dtor_pc
  trace :: "'a event list"

subsection \<open>Construction\<close>

text \<open>
  What the constructor can throw: \<^verbatim>\<open>std::invalid_argument\<close> at line 89,
  \<^verbatim>\<open>std::length_error\<close> or \<^verbatim>\<open>std::bad_alloc\<close> from \<^verbatim>\<open>m_threads.reserve\<close> at line 92, and
  \<^verbatim>\<open>std::system_error\<close> from the constructor of \<^verbatim>\<open>std::jthread\<close> at line 96.
\<close>

datatype error = invalid_argument string | length_error | bad_alloc | system_error

text \<open>
  The limits of the host, which belong to the standard library and the operating
  system and are parameters here: the \<^verbatim>\<open>max_size()\<close> of the vector of threads, the
  number of threads for which its storage can be allocated, and the number of threads
  that can be started before starting one fails.
\<close>

record environment =
  vector_max_size :: nat
  heap_capacity :: nat
  thread_limit :: nat

text \<open>Line 92, on the empty vector: the exception thrown, if any.\<close>

definition reserve :: "environment \<Rightarrow> nat \<Rightarrow> error option" where
  "reserve env n =
     (if vector_max_size env < n then Some length_error
      else if heap_capacity env < n then Some bad_alloc
      else None)"

text \<open>
  The loop of lines 95 to 138: thread \<open>i\<close> is started and pushed at index \<open>i\<close>. A
  thread that cannot be started throws out of the loop; the result then tells how many
  threads had been started.
\<close>

function spawn :: "environment \<Rightarrow> 64 word \<Rightarrow> 64 word \<Rightarrow> tid list \<Rightarrow> (error \<times> nat) + tid list" where
  "spawn env i maxThreads threads =
     (if i < maxThreads then
        (if unat i < thread_limit env
         then spawn env (i + 1) maxThreads (threads @ [unat i])
         else Inl (system_error, length threads))
      else Inr threads)"
  by pat_completeness auto
termination
proof (relation "measure (\<lambda>(env, i, maxThreads, threads). unat maxThreads - unat i)")
  show "wf (measure (\<lambda>(env :: environment, i :: 64 word, maxThreads :: 64 word,
          threads :: tid list). unat maxThreads - unat i))"
    by simp
next
  fix env :: environment and i maxThreads :: "64 word" and threads :: "tid list"
  assume lt: "i < maxThreads"
  then have "unat i < unat maxThreads"
    by (simp add: word_less_nat_alt)
  moreover have "unat (i + 1) = unat i + 1"
  proof -
    have "unat i + unat (1 :: 64 word) < 2 ^ LENGTH(64)"
      using \<open>unat i < unat maxThreads\<close> unsigned_less [of maxThreads, where ?'a = nat] by simp
    then show ?thesis
      using unat_add_lem [of i 1] by simp
  qed
  ultimately show "((env, i + 1, maxThreads, threads @ [unat i]), (env, i, maxThreads, threads))
      \<in> measure (\<lambda>(env, i, maxThreads, threads). unat maxThreads - unat i)"
    by simp
qed

text \<open>The equation of \<open>spawn\<close> is unfolded by hand only: it is recursive without a guard.\<close>

declare spawn.simps [simp del]

text \<open>
  The constructor. \<open>Inl (e, k)\<close> says that \<open>e\<close> is thrown at a moment when \<open>k\<close> workers
  have been started; there is no pool then. What the unwinding does with workers
  already started is not followed.
\<close>

definition PriorityThreadPool :: "environment \<Rightarrow> 64 word \<Rightarrow> (error \<times> nat) + 'a pool" where
  "PriorityThreadPool env maxThreads =
     (if maxThreads \<le> 0
      then Inl (invalid_argument ''maxThreads must be greater than 0!'', 0)
      else
        (case reserve env (unat maxThreads) of
           Some e \<Rightarrow> Inl (e, 0)
         | None \<Rightarrow>
             (case spawn env 0 maxThreads [] of
                Inl thrown \<Rightarrow> Inl thrown
              | Inr threads \<Rightarrow>
                  Inr \<lparr>m_quit = False, m_tasks = [], m_threads = threads,
                        m_cv = [], m_mutex = None, control = (\<lambda>w. Locking), dtor = Alive,
                        trace = []\<rparr>)))"

subsection \<open>Submission and introspection\<close>

text \<open>
  \<^verbatim>\<open>notify_one\<close> unblocks one of the threads blocked on the condition variable, if
  there is one (here: the one that has waited longest); \<^verbatim>\<open>notify_all\<close> unblocks all.
\<close>

definition notify_one :: "'a pool \<Rightarrow> 'a pool" where
  "notify_one s = s\<lparr>m_cv := (case m_cv s of [] \<Rightarrow> [] | w # ws \<Rightarrow> ws)\<rparr>"

definition notify_all :: "'a pool \<Rightarrow> 'a pool" where
  "notify_all s = s\<lparr>m_cv := []\<rparr>"

text \<open>
  The public operations, as the effect of their critical section followed by the
  notification. The caller holds the mutex for the critical section, so the operation
  takes place at a moment when no worker holds it (see \<open>step\<close> below).
\<close>

definition add :: "'a \<Rightarrow> Priority \<Rightarrow> 'a pool \<Rightarrow> 'a pool" where
  "add task priority s = notify_one (s\<lparr>m_tasks := pq_emplace (task, priority) (m_tasks s)\<rparr>)"

text \<open>\<^verbatim>\<open>std::for_each\<close> over the span, pushing each record.\<close>

fun for_each_push :: "'a TaskPriority list \<Rightarrow> 'a TasksPriorityQueue \<Rightarrow> 'a TasksPriorityQueue" where
  "for_each_push [] q = q"
| "for_each_push (task # tasks) q = for_each_push tasks (pq_push task q)"

definition add_span :: "'a TaskPriority list \<Rightarrow> 'a pool \<Rightarrow> 'a pool" where
  "add_span tasks s = notify_one (s\<lparr>m_tasks := for_each_push tasks (m_tasks s)\<rparr>)"

text \<open>
  The two \<^verbatim>\<open>const\<close> member functions return a value and the pool they leave.
  A \<^verbatim>\<open>std::vector\<close> never holds \<open>2^64\<close> elements, so the size is a natural number.
\<close>

definition remainingTasks :: "'a pool \<Rightarrow> nat \<times> 'a pool" where
  "remainingTasks s = (length (m_tasks s), s)"

definition hasRemainingTasks :: "'a pool \<Rightarrow> bool \<times> 'a pool" where
  "hasRemainingTasks s = (\<not> (m_tasks s = []), s)"

subsection \<open>The native priority interface\<close>

text \<open>
  What the operating system answers during one adaptation. On Linux
  \<^verbatim>\<open>pthread_getschedparam\<close> gives a return code and \<^verbatim>\<open>param.sched_priority\<close>, and
  \<^verbatim>\<open>pthread_setschedparam\<close> a return code; on Windows \<^verbatim>\<open>GetThreadPriority\<close> gives
  an \<^verbatim>\<open>int\<close> and \<^verbatim>\<open>SetThreadPriority\<close> a \<^verbatim>\<open>BOOL\<close>.
\<close>

record os_reply =
  pthread_getschedparam :: "int \<times> int"
  pthread_setschedparam :: int
  GetThreadPriority :: int
  SetThreadPriority :: bool

definition errorMessage :: string where
  "errorMessage = ''Could not change thread priority!'' @ [CHR 0x0A]"

text \<open>Lines 112 to 134, for worker \<open>w\<close> and \<^verbatim>\<open>priority\<close> the task's priority as \<^verbatim>\<open>int\<close>.\<close>

fun adapt :: "platform \<Rightarrow> os_reply \<Rightarrow> tid \<Rightarrow> int \<Rightarrow> 'a event list" where
  "adapt Linux os w priority =
     GetPriority w #
     (if fst (pthread_getschedparam os) = 0 then
        (if snd (pthread_getschedparam os) \<noteq> priority then
           SetPriority w priority #
           (if pthread_setschedparam os \<noteq> 0 then [Diagnostic w errorMessage] else [])
         else [])
      else [])"
| "adapt (Windows m) os w priority =
     GetPriority w #
     (if GetThreadPriority os \<noteq> priority then
        SetPriority w priority #
        (if \<not> SetThreadPriority os then [Diagnostic w errorMessage] else [])
      else [])"

subsection \<open>The worker loop\<close>

text \<open>One atomic step of worker \<open>w\<close> from control point \<open>at\<close>; \<open>None\<close> when it cannot move.\<close>

fun advance :: "platform \<Rightarrow> os_reply \<Rightarrow> tid \<Rightarrow> 'a pc \<Rightarrow> 'a pool \<Rightarrow> 'a pool option" where
  "advance pf os w Locking s =
     (if m_mutex s = None
      then Some (s\<lparr>m_mutex := Some w, control := (control s)(w := Checking)\<rparr>)
      else None)"
| "advance pf os w Checking s =
     (if m_quit s \<or> \<not> (m_tasks s = [])
      then Some (s\<lparr>control := (control s)(w := Dequeuing)\<rparr>)
      else Some (s\<lparr>control := (control s)(w := Sleeping)\<rparr>))"
| "advance pf os w Sleeping s =
     Some (s\<lparr>m_mutex := None, m_cv := m_cv s @ [w], control := (control s)(w := Blocked)\<rparr>)"
| "advance pf os w Blocked s =
     (if w \<notin> set (m_cv s) \<and> m_mutex s = None
      then Some (s\<lparr>m_mutex := Some w, control := (control s)(w := Checking)\<rparr>)
      else None)"
| "advance pf os w Dequeuing s =
     (if m_tasks s = [] then
        (if m_quit s
         then Some (s\<lparr>m_mutex := None, control := (control s)(w := Terminal)\<rparr>)
         else Some (s\<lparr>m_mutex := None, control := (control s)(w := Locking)\<rparr>))
      else
        (case pq_top (TaskPriorityComparator pf) (m_tasks s) of
           None \<Rightarrow> None
         | Some task \<Rightarrow>
             Some (s\<lparr>m_tasks := pq_pop (TaskPriorityComparator pf) (m_tasks s),
                     m_mutex := None, control := (control s)(w := Adapting task)\<rparr>)))"
| "advance pf os w (Adapting task) s =
     Some (s\<lparr>control := (control s)(w := Executing task),
             trace := trace s @ adapt pf os w (priority_value pf (snd task))\<rparr>)"
| "advance pf os w (Executing task) s =
     Some (s\<lparr>control := (control s)(w := Locking),
             trace := trace s @ [Invoked w (fst task)]\<rparr>)"
| "advance pf os w Terminal s = None"

definition worker_step :: "platform \<Rightarrow> os_reply \<Rightarrow> tid \<Rightarrow> 'a pool \<Rightarrow> 'a pool option" where
  "worker_step pf os w s =
     (if w \<in> set (m_threads s) then advance pf os w (control s w) s else None)"

subsection \<open>Destruction\<close>

text \<open>
  Line 143 stores \<^verbatim>\<open>m_quit\<close> and line 144 notifies, neither under the mutex; then the
  members are destroyed, and the destructor of each \<^verbatim>\<open>std::jthread\<close> joins its thread,
  which returns once the worker has left its loop. The members \<^verbatim>\<open>m_mutex\<close> and
  \<^verbatim>\<open>m_cv\<close> are declared after \<^verbatim>\<open>m_threads\<close> and are destroyed before it; the model
  does not follow that and lets the workers use both until they are joined.
\<close>

fun destroy_step :: "'a pool \<Rightarrow> 'a pool option" where
  "destroy_step s =
     (case dtor s of
        Alive \<Rightarrow> Some (s\<lparr>m_quit := True, dtor := Notifying\<rparr>)
      | Notifying \<Rightarrow> Some ((notify_all s)\<lparr>dtor := Joining\<rparr>)
      | Joining \<Rightarrow>
          (if list_all (\<lambda>w. control s w = Terminal) (m_threads s)
           then Some (s\<lparr>dtor := Destroyed\<rparr>) else None)
      | Destroyed \<Rightarrow> None)"

subsection \<open>Interleavings\<close>

text \<open>
  A run is a list of actions, each one atomic step of a thread: a worker (with the
  answers of the operating system, read only by an adaptation), a caller of
  \<^verbatim>\<open>add\<close> (any thread, also a task that submits further tasks, as long as the pool
  exists and the mutex is free), the thread that destroys the pool, or a spurious
  wake-up, which the condition variable permits and never promises.
\<close>

datatype 'a action =
    Worker tid os_reply
  | Add 'a Priority
  | AddSpan "'a TaskPriority list"
  | Destroy
  | SpuriousWake tid

fun step :: "platform \<Rightarrow> 'a action \<Rightarrow> 'a pool \<Rightarrow> 'a pool option" where
  "step pf (Worker w os) s = worker_step pf os w s"
| "step pf (Add task priority) s =
     (if m_mutex s = None \<and> dtor s \<noteq> Destroyed then Some (add task priority s) else None)"
| "step pf (AddSpan tasks) s =
     (if m_mutex s = None \<and> dtor s \<noteq> Destroyed then Some (add_span tasks s) else None)"
| "step pf Destroy s = destroy_step s"
| "step pf (SpuriousWake w) s =
     (if w \<in> set (m_cv s) then Some (s\<lparr>m_cv := removeAll w (m_cv s)\<rparr>) else None)"

fun run :: "platform \<Rightarrow> 'a action list \<Rightarrow> 'a pool \<Rightarrow> 'a pool option" where
  "run pf [] s = Some s"
| "run pf (a # as) s = (case step pf a s of None \<Rightarrow> None | Some s' \<Rightarrow> run pf as s')"

text \<open>The tasks called so far, in the order of the calls.\<close>

fun invoked :: "'a event list \<Rightarrow> 'a list" where
  "invoked [] = []"
| "invoked (Invoked w task # es) = task # invoked es"
| "invoked (e # es) = invoked es"

text \<open>
  The specification's reading of a batch: the single-task \<^verbatim>\<open>add\<close> performed once per
  pair, in the order of the sequence. It is what \<open>add_span\<close> is compared with.
\<close>

fun add_each :: "'a TaskPriority list \<Rightarrow> 'a pool \<Rightarrow> 'a pool" where
  "add_each [] s = s"
| "add_each ((task, priority) # tasks) s = add_each tasks (add task priority s)"


subsection \<open>Reading a trace\<close>

text \<open>The diagnostics written and the priorities passed to the native set call, in order.\<close>

fun diagnostics :: "'a event list \<Rightarrow> string list" where
  "diagnostics [] = []"
| "diagnostics (Diagnostic w msg # es) = msg # diagnostics es"
| "diagnostics (e # es) = diagnostics es"

fun set_calls :: "'a event list \<Rightarrow> int list" where
  "set_calls [] = []"
| "set_calls (SetPriority w v # es) = v # set_calls es"
| "set_calls (e # es) = set_calls es"

text \<open>
  The conditions of lines 117 to 121 and 128 to 130, named: the priority the native
  query reports, whether the set call is reached, and whether it fails.
\<close>

fun observed_priority :: "platform \<Rightarrow> os_reply \<Rightarrow> int" where
  "observed_priority Linux os = snd (pthread_getschedparam os)"
| "observed_priority (Windows m) os = GetThreadPriority os"

fun set_attempted :: "platform \<Rightarrow> os_reply \<Rightarrow> int \<Rightarrow> bool" where
  "set_attempted Linux os priority =
     (fst (pthread_getschedparam os) = 0 \<and> snd (pthread_getschedparam os) \<noteq> priority)"
| "set_attempted (Windows m) os priority = (GetThreadPriority os \<noteq> priority)"

fun set_failed :: "platform \<Rightarrow> os_reply \<Rightarrow> bool" where
  "set_failed Linux os = (pthread_setschedparam os \<noteq> 0)"
| "set_failed (Windows m) os = (\<not> SetThreadPriority os)"

text \<open>
  The specification's state Waiting: the worker is at the head of its loop or inside
  \<^verbatim>\<open>m_cv.wait\<close>.
\<close>

fun waiting :: "'a pc \<Rightarrow> bool" where
  "waiting Locking = True"
| "waiting Checking = True"
| "waiting Sleeping = True"
| "waiting Blocked = True"
| "waiting at = False"

text \<open>
  A worker that is about to take the mutex, at line 99 or on its way out of
  \<^verbatim>\<open>m_cv.wait(lock)\<close> after a notification or a spurious wake-up, while the mutex is
  free.
\<close>

definition can_lock :: "'a pool \<Rightarrow> tid \<Rightarrow> bool" where
  "can_lock s w =
     ((control s w = Locking \<or> control s w = Blocked \<and> w \<notin> set (m_cv s)) \<and> m_mutex s = None)"

text \<open>
  A worker that can go on by itself once the shutdown flag is set: it is at line 99 or
  woken in the wait with the mutex free, or it holds the mutex at the predicate or
  past the wait, or it is adapting to or executing a record while the mutex is free.
  Left out are a worker that has left its loop and a worker that is asleep in the
  wait or about to fall asleep there. \<open>in_hand\<close> is the record such a worker has
  dequeued and not yet called, \<open>steps_left\<close> the number of its steps until it has
  left the loop when \<open>n\<close> records are pending and nobody else takes any.
\<close>

definition awake :: "'a pool \<Rightarrow> tid \<Rightarrow> bool" where
  "awake s w =
     (case control s w of
        Locking \<Rightarrow> m_mutex s = None
      | Checking \<Rightarrow> m_mutex s = Some w
      | Sleeping \<Rightarrow> False
      | Blocked \<Rightarrow> w \<notin> set (m_cv s) \<and> m_mutex s = None
      | Dequeuing \<Rightarrow> m_mutex s = Some w
      | Adapting task \<Rightarrow> m_mutex s = None
      | Executing task \<Rightarrow> m_mutex s = None
      | Terminal \<Rightarrow> False)"

fun in_hand :: "'a pc \<Rightarrow> 'a TaskPriority list" where
  "in_hand (Adapting task) = [task]"
| "in_hand (Executing task) = [task]"
| "in_hand at = []"

fun steps_left :: "'a pc \<Rightarrow> nat \<Rightarrow> nat" where
  "steps_left Locking n = 5 * n + 3"
| "steps_left Checking n = 5 * n + 2"
| "steps_left Sleeping n = 0"
| "steps_left Blocked n = 5 * n + 3"
| "steps_left Dequeuing n = 5 * n + 1"
| "steps_left (Adapting task) n = 5 * n + 5"
| "steps_left (Executing task) n = 5 * n + 4"
| "steps_left Terminal n = 0"

subsection \<open>Auxiliary notions of the proofs\<close>

text \<open>
  After \<open>k\<close> steps of worker \<open>w\<close> alone the worker has left its loop, the queue is
  empty and the given tasks have been called.
\<close>

definition drained_after ::
  "platform \<Rightarrow> os_reply \<Rightarrow> tid \<Rightarrow> nat \<Rightarrow> 'a list \<Rightarrow> 'a pool \<Rightarrow> bool" where
  "drained_after pf os w k tasks s =
     (\<exists>s'. run pf (replicate k (Worker w os)) s = Some s' \<and> control s' w = Terminal \<and>
        m_tasks s' = [] \<and> mset (invoked (trace s')) = mset (invoked (trace s)) + mset tasks)"


text \<open>
  The comparator orders records by a key: the priority value on Windows, its negation
  on Linux.
\<close>

definition urgency :: "platform \<Rightarrow> Priority \<Rightarrow> int" where
  "urgency pf p =
     (case pf of Linux \<Rightarrow> - priority_value pf p | Windows m \<Rightarrow> priority_value pf p)"

text \<open>Whoever holds the mutex is inside the critical section of lines 99 to 110.\<close>

definition lock_inv :: "'a pool \<Rightarrow> bool" where
  "lock_inv s = (\<forall>w. m_mutex s = Some w \<longrightarrow>
     control s w = Checking \<or> control s w = Sleeping \<or> control s w = Dequeuing)"

text \<open>
  A worker inside the critical section holds the mutex, and one that is past the wait
  saw the predicate hold.
\<close>

definition crit_inv :: "'a pool \<Rightarrow> bool" where
  "crit_inv s = (\<forall>w. w \<in> set (m_threads s) \<longrightarrow>
     ((control s w = Checking \<or> control s w = Sleeping \<or> control s w = Dequeuing) \<longrightarrow>
        m_mutex s = Some w) \<and>
     (control s w = Dequeuing \<longrightarrow> m_quit s \<or> m_tasks s \<noteq> []))"

subsection \<open>Concrete pools and answers of the operating system\<close>

text \<open>
  An operating system that accepts every call and reports priority 0; one whose query
  fails (\<^verbatim>\<open>EINVAL\<close>, 22, on Linux); one whose set call fails (\<^verbatim>\<open>EPERM\<close>, 1, on Linux);
  one that reports priority 50.
\<close>

definition os_ok :: os_reply where
  "os_ok = \<lparr>pthread_getschedparam = (0, 0), pthread_setschedparam = 0,
            GetThreadPriority = 0, SetThreadPriority = True\<rparr>"

definition os_read_fails :: os_reply where
  "os_read_fails = \<lparr>pthread_getschedparam = (22, 0), pthread_setschedparam = 0,
            GetThreadPriority = 0, SetThreadPriority = True\<rparr>"

definition os_set_fails :: os_reply where
  "os_set_fails = \<lparr>pthread_getschedparam = (0, 0), pthread_setschedparam = 1,
            GetThreadPriority = 0, SetThreadPriority = False\<rparr>"

definition os_at_50 :: os_reply where
  "os_at_50 = \<lparr>pthread_getschedparam = (0, 50), pthread_setschedparam = 0,
            GetThreadPriority = 50, SetThreadPriority = True\<rparr>"

text \<open>
  The pool \<^verbatim>\<open>PriorityThreadPool pool(1)\<close> and pools that runs from it reach: with the
  shutdown flag set while a record is pending, after that record was executed, with
  worker 0 about to adapt to a record, with worker 0 past the wait and three records
  pending, with worker 0 blocked although the shutdown flag is set, with worker 0
  at the predicate of the wait, with worker 0 asleep in the wait, woken there with
  nothing to do, woken there by a submission, and woken there by the destructor with
  nothing pending and with a record pending. Then the pool of two workers and the pool
  it reaches when both are asleep and a batch of two records is submitted.
\<close>

text \<open>
  A host for the examples: a vector of at most \<open>2^59 - 1\<close> threads (the largest
  \<^verbatim>\<open>ptrdiff_t\<close> divided by the 16 bytes of a \<^verbatim>\<open>std::jthread\<close>), storage for \<open>2^30\<close> of
  them, and 32768 threads that can be started.
\<close>

definition host :: environment where
  "host = \<lparr>vector_max_size = 576460752303423487, heap_capacity = 1073741824,
            thread_limit = 32768\<rparr>"

definition pool1 :: "string pool" where
  "pool1 = \<lparr>m_quit = False, m_tasks = [], m_threads = [0], m_cv = [], m_mutex = None,
            control = (\<lambda>w. Locking), dtor = Alive, trace = []\<rparr>"

definition shutdown_pool :: "string pool" where
  "shutdown_pool = \<lparr>m_quit = True, m_tasks = [(''A'', Normal)], m_threads = [0], m_cv = [],
            m_mutex = None, control = (\<lambda>w. Locking), dtor = Joining, trace = []\<rparr>"

definition drained_pool :: "string pool" where
  "drained_pool = \<lparr>m_quit = True, m_tasks = [], m_threads = [0], m_cv = [],
            m_mutex = None, control = (\<lambda>w. Locking), dtor = Joining,
            trace = [GetPriority 0, SetPriority 0 50, Invoked 0 ''A'']\<rparr>"

definition adapting_pool :: "string pool" where
  "adapting_pool = \<lparr>m_quit = False, m_tasks = [], m_threads = [0], m_cv = [],
            m_mutex = None, control = (\<lambda>w. Locking)(0 := Adapting (''A'', Normal)),
            dtor = Alive, trace = []\<rparr>"

definition dequeuing_pool :: "string pool" where
  "dequeuing_pool = \<lparr>m_quit = False,
            m_tasks = [(''A'', Low), (''B'', High), (''C'', Normal)], m_threads = [0],
            m_cv = [], m_mutex = Some 0, control = (\<lambda>w. Locking)(0 := Dequeuing),
            dtor = Alive, trace = []\<rparr>"

definition stuck_pool :: "string pool" where
  "stuck_pool = \<lparr>m_quit = True, m_tasks = [], m_threads = [0], m_cv = [0],
            m_mutex = None, control = (\<lambda>w. Locking)(0 := Blocked), dtor = Joining,
            trace = []\<rparr>"

definition checking_pool :: "string pool" where
  "checking_pool = \<lparr>m_quit = False, m_tasks = [], m_threads = [0], m_cv = [],
            m_mutex = Some 0, control = (\<lambda>w. Locking)(0 := Checking), dtor = Alive,
            trace = []\<rparr>"

definition asleep_pool :: "string pool" where
  "asleep_pool = \<lparr>m_quit = False, m_tasks = [], m_threads = [0], m_cv = [0],
            m_mutex = None, control = (\<lambda>w. Locking)(0 := Blocked), dtor = Alive,
            trace = []\<rparr>"

definition woken_pool :: "string pool" where
  "woken_pool = \<lparr>m_quit = False, m_tasks = [], m_threads = [0], m_cv = [],
            m_mutex = None, control = (\<lambda>w. Locking)(0 := Blocked), dtor = Alive,
            trace = []\<rparr>"

definition fed_pool :: "string pool" where
  "fed_pool = \<lparr>m_quit = False, m_tasks = [(''A'', Normal)], m_threads = [0], m_cv = [],
            m_mutex = None, control = (\<lambda>w. Locking)(0 := Blocked), dtor = Alive,
            trace = []\<rparr>"

definition leaving_pool :: "string pool" where
  "leaving_pool = \<lparr>m_quit = True, m_tasks = [], m_threads = [0], m_cv = [],
            m_mutex = None, control = (\<lambda>w. Locking)(0 := Blocked), dtor = Joining,
            trace = []\<rparr>"

definition busy_pool :: "string pool" where
  "busy_pool = \<lparr>m_quit = True, m_tasks = [(''B'', High), (''C'', Normal)], m_threads = [0],
            m_cv = [], m_mutex = None, control = (\<lambda>w. Locking)(0 := Adapting (''A'', Normal)),
            dtor = Joining, trace = []\<rparr>"

definition notified_pool :: "string pool" where
  "notified_pool = \<lparr>m_quit = True, m_tasks = [(''A'', Normal)], m_threads = [0], m_cv = [],
            m_mutex = None, control = (\<lambda>w. Locking)(0 := Blocked), dtor = Joining,
            trace = []\<rparr>"

definition pool2 :: "string pool" where
  "pool2 = \<lparr>m_quit = False, m_tasks = [], m_threads = [0, 1], m_cv = [], m_mutex = None,
            control = (\<lambda>w. Locking), dtor = Alive, trace = []\<rparr>"

definition batch_pool :: "string pool" where
  "batch_pool = \<lparr>m_quit = False, m_tasks = [(''A'', Normal), (''B'', Normal)],
            m_threads = [0, 1], m_cv = [1], m_mutex = None,
            control = (\<lambda>w. Locking)(0 := Blocked, 1 := Blocked), dtor = Alive,
            trace = []\<rparr>"

section \<open>Submission, introspection and construction\<close>

lemma for_each_push_append: "for_each_push tasks q = q @ tasks"
  by (induction tasks arbitrary: q) (simp_all add: pq_push_def)

lemma notify_one_frame:
  "m_tasks (notify_one s) = m_tasks s" "m_quit (notify_one s) = m_quit s"
  "m_threads (notify_one s) = m_threads s" "m_mutex (notify_one s) = m_mutex s"
  "control (notify_one s) = control s" "dtor (notify_one s) = dtor s"
  "trace (notify_one s) = trace s"
  by (simp_all add: notify_one_def)

lemma add_tasks: "m_tasks (add task priority s) = m_tasks s @ [(task, priority)]"
  by (simp add: add_def notify_one_def pq_emplace_def)

lemma add_span_tasks: "m_tasks (add_span tasks s) = m_tasks s @ tasks"
  by (simp add: add_span_def notify_one_def for_each_push_append)

lemma add_each_tasks: "m_tasks (add_each tasks s) = m_tasks s @ tasks"
  by (induction tasks s rule: add_each.induct) (simp_all add: add_tasks)

lemma add_each_frame:
  "m_quit (add_each tasks s) = m_quit s \<and> m_threads (add_each tasks s) = m_threads s \<and>
   m_mutex (add_each tasks s) = m_mutex s \<and> control (add_each tasks s) = control s \<and>
   dtor (add_each tasks s) = dtor s \<and> trace (add_each tasks s) = trace s"
  by (induction tasks s rule: add_each.induct) (simp_all add: add_def notify_one_frame)

text \<open>
  C3. A batch \<^verbatim>\<open>add\<close> leaves the queue exactly as the single-task \<^verbatim>\<open>add\<close> performed
  once per pair in sequence order does. The two pools differ at most in the threads
  still blocked on the condition variable: the batch notifies once, the repeated
  submission once per record.
\<close>

theorem add_span_equals_repeated_add:
  "m_tasks (add_span tasks s) = m_tasks (add_each tasks s) \<and>
   (add_span tasks s)\<lparr>m_cv := []\<rparr> = (add_each tasks s)\<lparr>m_cv := []\<rparr>"
proof -
  have q: "m_tasks (add_span tasks s) = m_tasks (add_each tasks s)"
    by (simp add: add_span_tasks add_each_tasks)
  have "(add_span tasks s)\<lparr>m_cv := []\<rparr> = (add_each tasks s)\<lparr>m_cv := []\<rparr>"
    by (rule pool.equality)
      (simp_all add: q add_each_frame, simp_all add: add_span_def notify_one_def)
  with q show ?thesis by simp
qed

text \<open>
  C9. \<^verbatim>\<open>hasRemainingTasks()\<close> returns true exactly when \<^verbatim>\<open>remainingTasks()\<close> returns a
  value greater than 0, and both leave the pool as it was.
\<close>

theorem introspection_agrees:
  "fst (hasRemainingTasks s) = (0 < fst (remainingTasks s)) \<and>
   snd (hasRemainingTasks s) = s \<and> snd (remainingTasks s) = s"
  by (simp add: hasRemainingTasks_def remainingTasks_def)

text \<open>
  C10. A single-task \<^verbatim>\<open>add\<close> makes the queue longer by 1 and a batch of K records by K;
  the queue afterwards holds the pending records and the given ones, nothing else and
  nothing less; the shutdown flag and the workers are left as they were.
\<close>

theorem add_frame:
  "length (m_tasks (add task priority s)) = length (m_tasks s) + 1 \<and>
   mset (m_tasks (add task priority s)) = mset (m_tasks s) + {#(task, priority)#} \<and>
   m_quit (add task priority s) = m_quit s \<and>
   m_threads (add task priority s) = m_threads s \<and>
   control (add task priority s) = control s \<and>
   length (m_tasks (add_span tasks s)) = length (m_tasks s) + length tasks \<and>
   mset (m_tasks (add_span tasks s)) = mset (m_tasks s) + mset tasks \<and>
   m_quit (add_span tasks s) = m_quit s \<and>
   m_threads (add_span tasks s) = m_threads s \<and>
   control (add_span tasks s) = control s"
  by (simp add: add_tasks add_span_tasks) (simp add: add_def add_span_def notify_one_frame)

lemma unat_succ:
  assumes "i < (n :: 64 word)"
  shows "unat (i + 1) = unat i + 1" and "i + 1 \<le> n"
proof -
  from assms have lt: "unat i < unat n"
    by (simp add: word_less_nat_alt)
  have "unat i + unat (1 :: 64 word) < 2 ^ LENGTH(64)"
    using lt unsigned_less [of n, where ?'a = nat] by simp
  then show suc: "unat (i + 1) = unat i + 1"
    using unat_add_lem [of i 1] by simp
  then show "i + 1 \<le> n"
    using lt by (simp add: word_le_nat_alt)
qed

lemma spawn_eq:
  "i \<le> n \<Longrightarrow> unat n \<le> thread_limit env \<Longrightarrow> spawn env i n ts = Inr (ts @ [unat i..<unat n])"
proof (induction env i n ts rule: spawn.induct)
  case (1 env i maxThreads threads)
  show ?case
  proof (cases "i < maxThreads")
    case True
    then have lt: "unat i < unat maxThreads"
      by (simp add: word_less_nat_alt)
    with "1.prems"(2) have can: "unat i < thread_limit env"
      by simp
    note suc = unat_succ [OF True]
    have "spawn env i maxThreads threads = spawn env (i + 1) maxThreads (threads @ [unat i])"
      using True can by (subst spawn.simps) simp
    also have "\<dots> = Inr ((threads @ [unat i]) @ [unat (i + 1)..<unat maxThreads])"
      using "1.IH" [OF True can suc(2) "1.prems"(2)] .
    also have "(threads @ [unat i]) @ [unat (i + 1)..<unat maxThreads] =
        threads @ [unat i..<unat maxThreads]"
      using lt suc(1) by (simp add: upt_conv_Cons)
    finally show ?thesis .
  next
    case False
    with "1.prems"(1) have "i = maxThreads"
      by simp
    then show ?thesis
      by (subst spawn.simps) simp
  qed
qed





section \<open>The order of dequeuing\<close>

lemma sint_fits: "- 128 \<le> x \<Longrightarrow> x \<le> 127 \<Longrightarrow> sint (word_of_int x :: 8 word) = x"
  by (simp add: sint_sbintrunc' signed_take_bit_int_eq_self)

lemma comparator_urgency:
  "TaskPriorityComparator pf a b \<longleftrightarrow> urgency pf (snd a) < urgency pf (snd b)"
  by (cases pf)
    (simp_all add: TaskPriorityComparator_def urgency_def priority_value_def word_sless_alt)

lemma priority_value_linux:
  "priority_value Linux Lowest = 99" "priority_value Linux Low = 75"
  "priority_value Linux Normal = 50" "priority_value Linux High = 25"
  "priority_value Linux Realtime = 1"
  by (simp_all add: priority_value_def underlying_def)

lemma priority_value_windows:
  assumes "platform_ok (Windows m)"
  shows "priority_value (Windows m) p = enumerator m p"
proof -
  have "- 128 \<le> enumerator m p \<and> enumerator m p \<le> 127"
    using assms by (cases p) simp_all
  then show ?thesis
    by (simp add: priority_value_def underlying_def sint_fits)
qed

lemma urgency_rank:
  assumes "platform_ok pf"
  shows "urgency pf p < urgency pf q \<longleftrightarrow> abstract_rank p < abstract_rank q"
proof (cases pf)
  case Linux
  then show ?thesis
    by (cases p; cases q) (simp_all add: urgency_def priority_value_linux)
next
  case (Windows m)
  with assms have ok: "platform_ok (Windows m)"
    by simp
  show ?thesis
    unfolding Windows urgency_def platform.case priority_value_windows [OF ok]
    using ok by (cases p; cases q) simp_all
qed

lemma pq_scan_member: "pq_scan cmp b ys \<in> set (b # ys)"
  by (induction ys arbitrary: b) auto

lemma pq_scan_greatest:
  fixes f :: "'b \<Rightarrow> int"
  assumes "\<And>x y. cmp x y \<longleftrightarrow> f x < f y"
  shows "f b \<le> f (pq_scan cmp b ys) \<and> (\<forall>y \<in> set ys. f y \<le> f (pq_scan cmp b ys))"
proof (induction ys arbitrary: b)
  case Nil
  show ?case
    by simp
next
  case (Cons y ys)
  let ?b' = "if cmp b y then y else b"
  from Cons.IH [of ?b']
  have ih: "f ?b' \<le> f (pq_scan cmp ?b' ys)" "\<forall>z \<in> set ys. f z \<le> f (pq_scan cmp ?b' ys)"
    by simp_all
  have "f b \<le> f ?b'" "f y \<le> f ?b'"
    using assms [of b y] by auto
  with ih show ?case
    by (auto simp del: if_split intro: order_trans)
qed

text \<open>
  Whatever record a standard-conforming \<^verbatim>\<open>top()\<close> returns, no pending record has a
  greater rank.
\<close>

lemma contract_gives_maximal_rank:
  assumes ok: "platform_ok pf"
    and top: "pq_is_top (TaskPriorityComparator pf) q x"
    and y: "y \<in> set q"
  shows "abstract_rank (snd y) \<le> abstract_rank (snd x)"
proof -
  from top y have "\<not> TaskPriorityComparator pf x y"
    by (simp add: pq_is_top_def list_all_iff)
  then have "\<not> urgency pf (snd x) < urgency pf (snd y)"
    by (simp add: comparator_urgency)
  then show ?thesis
    by (simp add: urgency_rank [OF ok] not_less)
qed

lemma pq_top_is_top:
  assumes "pq_top (TaskPriorityComparator pf) q = Some x"
  shows "pq_is_top (TaskPriorityComparator pf) q x"
proof (cases q)
  case Nil
  with assms show ?thesis
    by simp
next
  case (Cons b ys)
  with assms have x: "x = pq_scan (TaskPriorityComparator pf) b ys"
    by simp
  have mem: "x \<in> set q"
    unfolding x Cons by (rule pq_scan_member)
  have "\<forall>y \<in> set q. urgency pf (snd y) \<le> urgency pf (snd x)"
    unfolding x Cons
    using pq_scan_greatest [of "TaskPriorityComparator pf" "\<lambda>t. urgency pf (snd t)" b ys]
    by (simp add: comparator_urgency)
  then have "\<forall>y \<in> set q. \<not> TaskPriorityComparator pf x y"
    by (simp add: comparator_urgency not_less)
  with mem show ?thesis
    by (simp add: pq_is_top_def list_all_iff)
qed

lemma pq_pop_mset:
  assumes "pq_top cmp q = Some x"
  shows "mset (pq_pop cmp q) = mset q - {#x#}"
  using assms by (cases q) auto

text \<open>
  C2. Whenever a worker is past the wait with a non-empty queue, its dequeue step
  removes one pending record and hands it to the adaptation, and no pending record has
  a priority above that record's in the order
  \<^verbatim>\<open>Realtime > High > Normal > Low > Lowest\<close>. This holds on Linux, with
  \<^verbatim>\<open>COMPARATOR\<close> \<^verbatim>\<open>>\<close> over the values 99 to 1, and on Windows, with \<^verbatim>\<open><\<close> over macros
  that grow from \<^verbatim>\<open>THREAD_PRIORITY_LOWEST\<close> to \<^verbatim>\<open>THREAD_PRIORITY_HIGHEST\<close>; and every
  record that the contract of \<^verbatim>\<open>std::priority_queue\<close> allows on top has the same rank
  as the one dequeued.
\<close>

theorem dequeue_takes_maximal_priority:
  assumes ok: "platform_ok pf"
    and w: "w \<in> set (m_threads s)"
    and at: "control s w = Dequeuing"
    and pending: "m_tasks s \<noteq> []"
  shows "\<exists>task s'. worker_step pf os w s = Some s' \<and> control s' w = Adapting task \<and>
           task \<in> set (m_tasks s) \<and> mset (m_tasks s') = mset (m_tasks s) - {#task#} \<and>
           (\<forall>x \<in> set (m_tasks s). abstract_rank (snd x) \<le> abstract_rank (snd task)) \<and>
           (\<forall>x. pq_is_top (TaskPriorityComparator pf) (m_tasks s) x \<longrightarrow>
              abstract_rank (snd x) = abstract_rank (snd task))"
proof -
  from pending obtain task where top: "pq_top (TaskPriorityComparator pf) (m_tasks s) = Some task"
    by (cases "m_tasks s") auto
  let ?s' = "s\<lparr>m_tasks := pq_pop (TaskPriorityComparator pf) (m_tasks s),
                m_mutex := None, control := (control s)(w := Adapting task)\<rparr>"
  have step: "worker_step pf os w s = Some ?s'"
    using w at pending top by (simp add: worker_step_def)
  have is_top: "pq_is_top (TaskPriorityComparator pf) (m_tasks s) task"
    by (rule pq_top_is_top [OF top])
  then have mem: "task \<in> set (m_tasks s)"
    by (simp add: pq_is_top_def)
  have max: "\<forall>x \<in> set (m_tasks s). abstract_rank (snd x) \<le> abstract_rank (snd task)"
    using contract_gives_maximal_rank [OF ok is_top] by blast
  have same: "abstract_rank (snd x) = abstract_rank (snd task)"
    if "pq_is_top (TaskPriorityComparator pf) (m_tasks s) x" for x
  proof -
    from that have "x \<in> set (m_tasks s)"
      by (simp add: pq_is_top_def)
    with max have "abstract_rank (snd x) \<le> abstract_rank (snd task)"
      by blast
    moreover have "abstract_rank (snd task) \<le> abstract_rank (snd x)"
      by (rule contract_gives_maximal_rank [OF ok that mem])
    ultimately show ?thesis
      by simp
  qed
  have "mset (m_tasks ?s') = mset (m_tasks s) - {#task#}"
    by (simp add: pq_pop_mset [OF top])
  with step mem max same show ?thesis
    by (intro exI [of _ task] exI [of _ ?s']) simp
qed

text \<open>
  The scenario of the specification, A at Low, B at High and C at Normal pending
  together: B is dequeued first, on Linux and with the macros of the Windows SDK.
\<close>

lemma dequeuing_pool_reached:
  "run pf [AddSpan [(''A'', Low), (''B'', High), (''C'', Normal)], Worker 0 os, Worker 0 os]
     pool1 = Some dequeuing_pool"
  by (simp add: pool1_def dequeuing_pool_def worker_step_def add_span_def notify_one_def
      pq_push_def)

theorem dequeue_takes_maximal_priority_witness:
  "run Linux [AddSpan [(''A'', Low), (''B'', High), (''C'', Normal)], Worker 0 os_ok,
     Worker 0 os_ok] pool1 = Some dequeuing_pool \<and>
   platform_ok Linux \<and> platform_ok windows_sdk \<and> 0 \<in> set (m_threads dequeuing_pool) \<and>
   control dequeuing_pool 0 = Dequeuing \<and> m_tasks dequeuing_pool \<noteq> [] \<and>
   (\<exists>s'. worker_step Linux os_ok 0 dequeuing_pool = Some s' \<and>
      control s' 0 = Adapting (''B'', High) \<and>
      mset (m_tasks s') = mset [(''A'', Low), (''C'', Normal)]) \<and>
   (\<exists>s'. worker_step windows_sdk os_ok 0 dequeuing_pool = Some s' \<and>
      control s' 0 = Adapting (''B'', High) \<and>
      mset (m_tasks s') = mset [(''A'', Low), (''C'', Normal)])"
proof -
  have hyps: "platform_ok Linux" "platform_ok windows_sdk" "0 \<in> set (m_threads dequeuing_pool)"
    "control dequeuing_pool 0 = Dequeuing" "m_tasks dequeuing_pool \<noteq> []"
    by (simp_all add: windows_sdk_def dequeuing_pool_def)
  have tasks: "m_tasks dequeuing_pool = [(''A'', Low), (''B'', High), (''C'', Normal)]"
    by (simp add: dequeuing_pool_def)
  have first: "\<exists>s'. worker_step pf os_ok 0 dequeuing_pool = Some s' \<and>
      control s' 0 = Adapting (''B'', High) \<and>
      mset (m_tasks s') = mset [(''A'', Low), (''C'', Normal)]"
    if ok: "platform_ok pf" for pf
  proof -
    from dequeue_takes_maximal_priority [OF ok hyps(3) hyps(4) hyps(5), of os_ok]
    obtain task s' where step: "worker_step pf os_ok 0 dequeuing_pool = Some s'"
      and at: "control s' 0 = Adapting task"
      and mem: "task \<in> set (m_tasks dequeuing_pool)"
      and rest: "mset (m_tasks s') = mset (m_tasks dequeuing_pool) - {#task#}"
      and max: "\<forall>x \<in> set (m_tasks dequeuing_pool).
        abstract_rank (snd x) \<le> abstract_rank (snd task)"
      by blast
    from max have "abstract_rank (snd (''B'', High)) \<le> abstract_rank (snd task)"
      unfolding tasks by simp
    with mem have task: "task = (''B'', High)"
      unfolding tasks by auto
    from rest have "mset (m_tasks s') = mset [(''A'', Low), (''C'', Normal)]"
      unfolding task tasks by simp
    with step at task show ?thesis
      by blast
  qed
  from dequeuing_pool_reached [of Linux os_ok] hyps first [OF hyps(1)] first [OF hyps(2)]
  show ?thesis
    by blast
qed

section \<open>The adaptation of the native priority\<close>

lemma invoked_append: "invoked (es @ fs) = invoked es @ invoked fs"
  by (induction es rule: invoked.induct) simp_all

lemma diagnostics_append: "diagnostics (es @ fs) = diagnostics es @ diagnostics fs"
  by (induction es rule: diagnostics.induct) simp_all

lemma adapt_invoked: "invoked (adapt pf os w priority) = []"
  by (cases pf) simp_all

lemma adapt_diagnostics:
  "diagnostics (adapt pf os w priority) =
     (if set_attempted pf os priority \<and> set_failed pf os then [errorMessage] else [])"
  by (cases pf) simp_all

lemma adapt_set_calls:
  "set_calls (adapt pf os w priority) = (if set_attempted pf os priority then [priority] else [])"
  by (cases pf) simp_all

lemma set_attempted_differs:
  "set_attempted pf os priority \<Longrightarrow> observed_priority pf os \<noteq> priority"
  by (cases pf) simp_all

lemma pool1_constructed: "PriorityThreadPool host 1 = Inr pool1"
  using spawn_eq [of 0 1 host "[]"]
  by (simp add: PriorityThreadPool_def reserve_def pool1_def host_def)

lemma adapting_pool_reached:
  "run pf [Add ''A'' Normal, Worker 0 os, Worker 0 os, Worker 0 os] pool1 = Some adapting_pool"
  by (simp add: pool1_def adapting_pool_def worker_step_def add_def notify_one_def
      pq_emplace_def)

subsection \<open>The mutex is held only inside the critical section\<close>

lemma worker_step_lock_inv:
  assumes inv: "lock_inv s" and step: "worker_step pf os w s = Some s'"
  shows "lock_inv s'"
  unfolding lock_inv_def
proof (intro allI impI)
  fix v
  assume held: "m_mutex s' = Some v"
  from step have adv: "advance pf os w (control s w) s = Some s'"
    by (simp add: worker_step_def split: if_splits)
  from inv have iv: "m_mutex s = Some v \<Longrightarrow>
      control s v = Checking \<or> control s v = Sleeping \<or> control s v = Dequeuing"
    by (simp add: lock_inv_def)
  show "control s' v = Checking \<or> control s' v = Sleeping \<or> control s' v = Dequeuing"
  proof (cases "control s w")
    case Locking
    with adv held iv show ?thesis
      by (auto split: if_splits)
  next
    case Checking
    with adv held iv show ?thesis
      by (auto split: if_splits)
  next
    case Sleeping
    with adv held iv show ?thesis
      by (auto split: if_splits)
  next
    case Blocked
    with adv held iv show ?thesis
      by (auto split: if_splits)
  next
    case Dequeuing
    with adv held iv show ?thesis
      by (auto split: if_splits option.splits)
  next
    case (Adapting task)
    with adv held iv show ?thesis
      by (auto split: if_splits)
  next
    case (Executing task)
    with adv held iv show ?thesis
      by (auto split: if_splits)
  next
    case Terminal
    with adv show ?thesis
      by simp
  qed
qed

lemma step_lock_inv:
  assumes inv: "lock_inv s" and step: "step pf a s = Some s'"
  shows "lock_inv s'"
proof (cases a)
  case (Worker w os)
  with step have "worker_step pf os w s = Some s'"
    by simp
  with inv show ?thesis
    by (rule worker_step_lock_inv)
next
  case (Add task priority)
  with step have "m_mutex s' = m_mutex s" "control s' = control s"
    by (auto simp: add_def notify_one_frame split: if_splits)
  with inv show ?thesis
    by (simp add: lock_inv_def)
next
  case (AddSpan tasks)
  with step have "m_mutex s' = m_mutex s" "control s' = control s"
    by (auto simp: add_span_def notify_one_frame split: if_splits)
  with inv show ?thesis
    by (simp add: lock_inv_def)
next
  case Destroy
  with step have "m_mutex s' = m_mutex s" "control s' = control s"
    by (auto simp: notify_all_def split: if_splits dtor_pc.splits)
  with inv show ?thesis
    by (simp add: lock_inv_def)
next
  case (SpuriousWake w)
  with step have "m_mutex s' = m_mutex s" "control s' = control s"
    by (auto split: if_splits)
  with inv show ?thesis
    by (simp add: lock_inv_def)
qed

lemma run_lock_inv: "lock_inv s \<Longrightarrow> run pf acts s = Some s' \<Longrightarrow> lock_inv s'"
proof (induction acts arbitrary: s)
  case Nil
  then show ?case
    by simp
next
  case (Cons a acts)
  from Cons.prems(2) obtain s1
    where a: "step pf a s = Some s1" and rest: "run pf acts s1 = Some s'"
    by (auto split: option.splits)
  from Cons.prems(1) a have "lock_inv s1"
    by (rule step_lock_inv)
  then show ?case
    using rest by (rule Cons.IH)
qed

lemma constructed_lock_inv: "PriorityThreadPool env n = Inr s \<Longrightarrow> lock_inv s"
  by (auto simp: PriorityThreadPool_def lock_inv_def split: if_splits option.splits sum.splits)

text \<open>
  C7. In every pool that a run reaches from a constructed pool, a worker that is
  adapting to a dequeued record does not hold the mutex, and its adaptation step takes
  neither the mutex nor a record. The adaptation calls the native set function at most
  once, with the task's priority as \<^verbatim>\<open>int\<close>, and only if the priority that the native
  query reported differs from it; if the two are equal there is no set call.
\<close>

theorem adaptation_outside_lock:
  fixes s :: "'a pool"
  assumes built: "PriorityThreadPool env n = Inr s0"
    and reached: "run pf acts s0 = Some s"
    and w: "w \<in> set (m_threads s)"
    and at: "control s w = Adapting task"
  shows "m_mutex s \<noteq> Some w \<and>
    (\<exists>s'. worker_step pf os w s = Some s' \<and> m_mutex s' = m_mutex s \<and>
       m_tasks s' = m_tasks s \<and> control s' w = Executing task \<and>
       trace s' = trace s @ adapt pf os w (priority_value pf (snd task))) \<and>
    (set_calls (adapt pf os w (priority_value pf (snd task)) :: 'a event list) \<noteq> [] \<longrightarrow>
       set_calls (adapt pf os w (priority_value pf (snd task)) :: 'a event list) =
         [priority_value pf (snd task)] \<and>
       observed_priority pf os \<noteq> priority_value pf (snd task)) \<and>
    (observed_priority pf os = priority_value pf (snd task) \<longrightarrow>
       set_calls (adapt pf os w (priority_value pf (snd task)) :: 'a event list) = [])"
proof (intro conjI)
  have "lock_inv s"
    using constructed_lock_inv [OF built] reached by (rule run_lock_inv)
  with at show "m_mutex s \<noteq> Some w"
    by (auto simp: lock_inv_def)
  have "worker_step pf os w s =
      Some (s\<lparr>control := (control s)(w := Executing task),
              trace := trace s @ adapt pf os w (priority_value pf (snd task))\<rparr>)"
    using w at by (simp add: worker_step_def)
  then show "\<exists>s'. worker_step pf os w s = Some s' \<and> m_mutex s' = m_mutex s \<and>
       m_tasks s' = m_tasks s \<and> control s' w = Executing task \<and>
       trace s' = trace s @ adapt pf os w (priority_value pf (snd task))"
    by simp
  show "set_calls (adapt pf os w (priority_value pf (snd task)) :: 'a event list) \<noteq> [] \<longrightarrow>
       set_calls (adapt pf os w (priority_value pf (snd task)) :: 'a event list) =
         [priority_value pf (snd task)] \<and>
       observed_priority pf os \<noteq> priority_value pf (snd task)"
    by (simp add: adapt_set_calls set_attempted_differs)
  show "observed_priority pf os = priority_value pf (snd task) \<longrightarrow>
       set_calls (adapt pf os w (priority_value pf (snd task)) :: 'a event list) = []"
    using set_attempted_differs [of pf os "priority_value pf (snd task)"]
    by (auto simp: adapt_set_calls)
qed

text \<open>
  A pool of one worker that has dequeued a record of priority Normal, on Linux: the
  mutex is free; a thread reported at priority 0 is set to 50, one reported at 50 is
  left alone.
\<close>

theorem adaptation_outside_lock_witness:
  "PriorityThreadPool host 1 = Inr pool1 \<and>
   run Linux [Add ''A'' Normal, Worker 0 os_ok, Worker 0 os_ok, Worker 0 os_ok] pool1 =
     Some adapting_pool \<and>
   0 \<in> set (m_threads adapting_pool) \<and>
   control adapting_pool 0 = Adapting (''A'', Normal) \<and>
   m_mutex adapting_pool \<noteq> Some 0 \<and>
   observed_priority Linux os_ok \<noteq> priority_value Linux Normal \<and>
   set_calls (adapt Linux os_ok 0 (priority_value Linux Normal) :: string event list) = [50] \<and>
   observed_priority Linux os_at_50 = priority_value Linux Normal \<and>
   set_calls (adapt Linux os_at_50 0 (priority_value Linux Normal) :: string event list) = []"
proof -
  have mem: "0 \<in> set (m_threads adapting_pool)"
    and at: "control adapting_pool 0 = Adapting (''A'', Normal)"
    by (simp_all add: adapting_pool_def)
  have differs: "observed_priority Linux os_ok \<noteq> priority_value Linux Normal"
    and equal: "observed_priority Linux os_at_50 = priority_value Linux Normal"
    by (simp_all add: os_ok_def os_at_50_def priority_value_linux)
  have called: "set_calls (adapt Linux os_ok 0 (priority_value Linux Normal) :: string event list)
      \<noteq> []"
    by (simp add: os_ok_def priority_value_linux)
  note inst = adaptation_outside_lock [OF pool1_constructed adapting_pool_reached mem at,
      where pf = Linux]
  have free: "m_mutex adapting_pool \<noteq> Some 0"
    using inst [of os_ok] by (rule conjunct1)
  have "set_calls (adapt Linux os_ok 0 (priority_value Linux Normal) :: string event list) =
      [priority_value Linux Normal]"
    using inst [of os_ok, THEN conjunct2, THEN conjunct2, THEN conjunct1] called
    by (simp del: adapt.simps)
  then have set: "set_calls (adapt Linux os_ok 0 (priority_value Linux Normal) ::
      string event list) = [50]"
    by (simp add: priority_value_linux del: adapt.simps)
  have "set_calls (adapt Linux os_at_50 0 (priority_value Linux Normal) :: string event list) =
      []"
    using inst [of os_at_50, THEN conjunct2, THEN conjunct2, THEN conjunct2] equal
    by (simp del: adapt.simps)
  with free set
  have "m_mutex adapting_pool \<noteq> Some 0 \<and>
    set_calls (adapt Linux os_ok 0 (priority_value Linux Normal) :: string event list) = [50] \<and>
    set_calls (adapt Linux os_at_50 0 (priority_value Linux Normal) :: string event list) = []"
    by blast
  moreover note pool1_constructed adapting_pool_reached [of Linux os_ok] mem at differs equal
  ultimately show ?thesis
    by blast
qed

text \<open>
  C5, as the code has it. A failure of the native set call is not fatal and is
  reported: the diagnostic is written exactly when the set call was reached and
  failed. A failure of the native query is not fatal either, but it is not reported:
  on Linux the adaptation is then skipped without a diagnostic, and on Windows the
  value returned is compared with the task's priority like any other. In every case
  the worker's next step calls the task, once, and the worker is back at the head of
  its loop.
\<close>

theorem priority_failure_handling:
  assumes w: "w \<in> set (m_threads s)" and at: "control s w = Adapting task"
  shows "\<exists>s1 s2. worker_step pf os w s = Some s1 \<and> worker_step pf os w s1 = Some s2 \<and>
      control s1 w = Executing task \<and> control s2 w = Locking \<and>
      trace s2 = trace s1 @ [Invoked w (fst task)] \<and>
      invoked (trace s2) = invoked (trace s) @ [fst task] \<and>
      diagnostics (trace s2) = diagnostics (trace s) @
        (if set_attempted pf os (priority_value pf (snd task)) \<and> set_failed pf os
         then [errorMessage] else []) \<and>
      (pf = Linux \<and> fst (pthread_getschedparam os) \<noteq> 0 \<longrightarrow>
         trace s1 = trace s @ [GetPriority w])"
proof -
  let ?s1 = "s\<lparr>control := (control s)(w := Executing task),
               trace := trace s @ adapt pf os w (priority_value pf (snd task))\<rparr>"
  let ?s2 = "?s1\<lparr>control := (control ?s1)(w := Locking),
               trace := trace ?s1 @ [Invoked w (fst task)]\<rparr>"
  have one: "worker_step pf os w s = Some ?s1"
    using w at by (simp add: worker_step_def)
  have two: "worker_step pf os w ?s1 = Some ?s2"
    using w by (simp add: worker_step_def)
  have run: "invoked (trace ?s2) = invoked (trace s) @ [fst task]"
    by (simp add: invoked_append adapt_invoked)
  have log: "diagnostics (trace ?s2) = diagnostics (trace s) @
      (if set_attempted pf os (priority_value pf (snd task)) \<and> set_failed pf os
       then [errorMessage] else [])"
    by (simp add: diagnostics_append adapt_diagnostics)
  have silent: "pf = Linux \<and> fst (pthread_getschedparam os) \<noteq> 0 \<longrightarrow>
      trace ?s1 = trace s @ [GetPriority w]"
    by simp
  show ?thesis
    using one two run log silent
    by (intro exI [of _ ?s1] exI [of _ ?s2]) simp
qed

text \<open>
  On Linux, a set call that fails with \<^verbatim>\<open>EPERM\<close> leaves one diagnostic and the task is
  called; a query that fails with \<^verbatim>\<open>EINVAL\<close> leaves the query alone in the trace.
\<close>

theorem priority_failure_handling_witness:
  "0 \<in> set (m_threads adapting_pool) \<and> control adapting_pool 0 = Adapting (''A'', Normal) \<and>
   (\<exists>s1 s2. worker_step Linux os_set_fails 0 adapting_pool = Some s1 \<and>
      worker_step Linux os_set_fails 0 s1 = Some s2 \<and>
      invoked (trace s2) = [''A''] \<and> diagnostics (trace s2) = [errorMessage]) \<and>
   fst (pthread_getschedparam os_read_fails) \<noteq> 0 \<and>
   (\<exists>s1 s2. worker_step Linux os_read_fails 0 adapting_pool = Some s1 \<and>
      worker_step Linux os_read_fails 0 s1 = Some s2 \<and>
      trace s1 = [GetPriority 0] \<and> invoked (trace s2) = [''A''] \<and>
      diagnostics (trace s2) = [])"
proof -
  have mem: "0 \<in> set (m_threads adapting_pool)"
    and at: "control adapting_pool 0 = Adapting (''A'', Normal)"
    and empty: "trace adapting_pool = []"
    by (simp_all add: adapting_pool_def)
  have fails: "fst (pthread_getschedparam os_read_fails) \<noteq> 0"
    by (simp add: os_read_fails_def)
  have set: "set_attempted Linux os_set_fails (priority_value Linux Normal) \<and>
      set_failed Linux os_set_fails"
    by (simp add: os_set_fails_def priority_value_linux)
  have read: "\<not> set_attempted Linux os_read_fails (priority_value Linux Normal)"
    by (simp add: os_read_fails_def)
  from priority_failure_handling [OF mem at, of Linux os_set_fails] set empty
  have a: "\<exists>s1 s2. worker_step Linux os_set_fails 0 adapting_pool = Some s1 \<and>
      worker_step Linux os_set_fails 0 s1 = Some s2 \<and>
      invoked (trace s2) = [''A''] \<and> diagnostics (trace s2) = [errorMessage]"
    by auto
  from priority_failure_handling [OF mem at, of Linux os_read_fails] read fails empty
  have b: "\<exists>s1 s2. worker_step Linux os_read_fails 0 adapting_pool = Some s1 \<and>
      worker_step Linux os_read_fails 0 s1 = Some s2 \<and>
      trace s1 = [GetPriority 0] \<and> invoked (trace s2) = [''A''] \<and>
      diagnostics (trace s2) = []"
    by auto
  from mem at fails a b show ?thesis
    by blast
qed

text \<open>
  What the specification states does not hold on Linux: with a query that fails, the
  run from the constructed pool ends with the task called and nothing reported.
\<close>

theorem read_failure_counterexample:
  "PriorityThreadPool host 1 = Inr pool1 \<and>
   fst (pthread_getschedparam os_read_fails) \<noteq> 0 \<and>
   run Linux [Add ''A'' Normal, Worker 0 os_read_fails, Worker 0 os_read_fails,
     Worker 0 os_read_fails, Worker 0 os_read_fails, Worker 0 os_read_fails] pool1 \<noteq> None \<and>
   trace (the (run Linux [Add ''A'' Normal, Worker 0 os_read_fails, Worker 0 os_read_fails,
     Worker 0 os_read_fails, Worker 0 os_read_fails, Worker 0 os_read_fails] pool1)) =
     [GetPriority 0, Invoked 0 ''A''] \<and>
   diagnostics (trace (the (run Linux [Add ''A'' Normal, Worker 0 os_read_fails,
     Worker 0 os_read_fails, Worker 0 os_read_fails, Worker 0 os_read_fails,
     Worker 0 os_read_fails] pool1))) = []"
proof -
  have "run Linux [Add ''A'' Normal, Worker 0 os_read_fails, Worker 0 os_read_fails,
     Worker 0 os_read_fails, Worker 0 os_read_fails, Worker 0 os_read_fails] pool1 =
     Some (pool1\<lparr>trace := [GetPriority 0, Invoked 0 ''A'']\<rparr>)"
    by (simp add: pool1_def worker_step_def add_def notify_one_def pq_emplace_def
        os_read_fails_def fun_upd_idem_iff)
  then show ?thesis
    using pool1_constructed by (simp add: os_read_fails_def)
qed

section \<open>The wait and the exit of the loop\<close>

lemma worker_step_threads: "worker_step pf os w s = Some s' \<Longrightarrow> m_threads s' = m_threads s"
  by (cases "control s w") (auto simp: worker_step_def split: if_splits option.splits)

lemma worker_step_other:
  "worker_step pf os v s = Some s' \<Longrightarrow> v \<noteq> w \<Longrightarrow> control s' w = control s w"
  by (cases "control s v") (auto simp: worker_step_def split: if_splits option.splits)

lemma worker_step_terminal: "control s w = Terminal \<Longrightarrow> worker_step pf os w s = None"
  by (simp add: worker_step_def)

lemma step_terminal:
  assumes "step pf a s = Some s'" and "control s w = Terminal"
  shows "control s' w = Terminal \<and> m_threads s' = m_threads s"
proof (cases a)
  case (Worker v os)
  with assms(1) have ws: "worker_step pf os v s = Some s'"
    by simp
  with assms(2) have "v \<noteq> w"
    by (auto simp: worker_step_terminal)
  with ws assms(2) show ?thesis
    by (simp add: worker_step_other worker_step_threads)
next
  case (Add task priority)
  with assms show ?thesis
    by (auto simp: add_def notify_one_frame split: if_splits)
next
  case (AddSpan tasks)
  with assms show ?thesis
    by (auto simp: add_span_def notify_one_frame split: if_splits)
next
  case Destroy
  with assms show ?thesis
    by (auto simp: notify_all_def split: if_splits dtor_pc.splits)
next
  case (SpuriousWake v)
  with assms show ?thesis
    by (auto split: if_splits)
qed

lemma run_terminal:
  "run pf acts s = Some s' \<Longrightarrow> control s w = Terminal \<Longrightarrow> control s' w = Terminal"
proof (induction acts arbitrary: s)
  case Nil
  then show ?case
    by simp
next
  case (Cons a acts)
  from Cons.prems(1) obtain s1
    where a: "step pf a s = Some s1" and rest: "run pf acts s1 = Some s'"
    by (auto split: option.splits)
  from a Cons.prems(2) have "control s1 w = Terminal"
    by (simp add: step_terminal)
  with rest show ?case
    by (rule Cons.IH)
qed

lemma can_lock_step:
  assumes w: "w \<in> set (m_threads s)" and c: "can_lock s w"
  shows "worker_step pf os w s =
    Some (s\<lparr>m_mutex := Some w, control := (control s)(w := Checking)\<rparr>)"
proof -
  from c have "control s w = Locking \<or> control s w = Blocked \<and> w \<notin> set (m_cv s)"
    and "m_mutex s = None"
    by (simp_all add: can_lock_def)
  with w show ?thesis
    by (auto simp: worker_step_def)
qed

text \<open>
  C6, as the code has it. A worker leaves the wait only through its predicate: it
  goes on to line 102 exactly when the queue is non-empty or the shutdown flag is set
  at the moment it evaluates the predicate with the mutex held, and otherwise goes to
  sleep; no step of a waiting worker takes a record or calls a task. A worker blocked
  in the wait evaluates the predicate only after it has been notified or woken
  spuriously: until then it has no step, whatever the queue and the flag are. Once
  it is woken, or arrives at the head of its loop, with the mutex free, it leaves the
  wait in two steps if the queue is non-empty or the flag is set; with an empty queue
  and the flag unset it takes nothing and is blocked again after three steps; with an
  empty queue and the flag set it leaves the loop after three steps, and whatever runs
  afterwards it stays out and has no further step.
\<close>

theorem wait_predicate:
  assumes w: "w \<in> set (m_threads s)"
  shows "(\<forall>s'. waiting (control s w) \<and> worker_step pf os w s = Some s' \<longrightarrow>
            (control s' w = Dequeuing \<longleftrightarrow>
               control s w = Checking \<and> (m_quit s \<or> m_tasks s \<noteq> [])) \<and>
            (control s' w = Dequeuing \<or> waiting (control s' w)) \<and>
            m_tasks s' = m_tasks s \<and> trace s' = trace s) \<and>
         (control s w = Checking \<longrightarrow>
           (\<exists>s'. worker_step pf os w s = Some s' \<and>
              control s' w = (if m_quit s \<or> m_tasks s \<noteq> [] then Dequeuing else Sleeping) \<and>
              m_tasks s' = m_tasks s \<and> trace s' = trace s)) \<and>
         (control s w = Blocked \<and> w \<in> set (m_cv s) \<longrightarrow> worker_step pf os w s = None) \<and>
         (can_lock s w \<and> (m_quit s \<or> m_tasks s \<noteq> []) \<longrightarrow>
           (\<exists>s'. run pf [Worker w os, Worker w os] s = Some s' \<and>
              control s' w = Dequeuing \<and> m_mutex s' = Some w \<and>
              m_tasks s' = m_tasks s \<and> trace s' = trace s)) \<and>
         (can_lock s w \<and> m_tasks s = [] \<and> \<not> m_quit s \<longrightarrow>
           (\<exists>s'. run pf [Worker w os, Worker w os, Worker w os] s = Some s' \<and>
              control s' w = Blocked \<and> w \<in> set (m_cv s') \<and> m_mutex s' = None \<and>
              m_tasks s' = [] \<and> \<not> m_quit s' \<and> trace s' = trace s)) \<and>
         (can_lock s w \<and> m_tasks s = [] \<and> m_quit s \<longrightarrow>
           (\<exists>s'. run pf [Worker w os, Worker w os, Worker w os] s = Some s' \<and>
              control s' w = Terminal \<and> m_tasks s' = [] \<and> trace s' = trace s \<and>
              (\<forall>acts s''. run pf acts s' = Some s'' \<longrightarrow>
                 control s'' w = Terminal \<and> worker_step pf os w s'' = None)))"
proof (intro conjI)
  show "\<forall>s'. waiting (control s w) \<and> worker_step pf os w s = Some s' \<longrightarrow>
      (control s' w = Dequeuing \<longleftrightarrow> control s w = Checking \<and> (m_quit s \<or> m_tasks s \<noteq> [])) \<and>
      (control s' w = Dequeuing \<or> waiting (control s' w)) \<and>
      m_tasks s' = m_tasks s \<and> trace s' = trace s"
  proof (intro allI impI)
    fix s'
    assume a: "waiting (control s w) \<and> worker_step pf os w s = Some s'"
    with w have adv: "advance pf os w (control s w) s = Some s'"
      by (simp add: worker_step_def)
    from a adv show "(control s' w = Dequeuing \<longleftrightarrow>
          control s w = Checking \<and> (m_quit s \<or> m_tasks s \<noteq> [])) \<and>
        (control s' w = Dequeuing \<or> waiting (control s' w)) \<and>
        m_tasks s' = m_tasks s \<and> trace s' = trace s"
      by (cases "control s w") (auto split: if_splits)
  qed
next
  show "control s w = Checking \<longrightarrow>
      (\<exists>s'. worker_step pf os w s = Some s' \<and>
         control s' w = (if m_quit s \<or> m_tasks s \<noteq> [] then Dequeuing else Sleeping) \<and>
         m_tasks s' = m_tasks s \<and> trace s' = trace s)"
    using w by (simp add: worker_step_def)
next
  show "control s w = Blocked \<and> w \<in> set (m_cv s) \<longrightarrow> worker_step pf os w s = None"
    using w by (simp add: worker_step_def)
next
  show "can_lock s w \<and> (m_quit s \<or> m_tasks s \<noteq> []) \<longrightarrow>
      (\<exists>s'. run pf [Worker w os, Worker w os] s = Some s' \<and>
         control s' w = Dequeuing \<and> m_mutex s' = Some w \<and>
         m_tasks s' = m_tasks s \<and> trace s' = trace s)"
  proof
    assume a: "can_lock s w \<and> (m_quit s \<or> m_tasks s \<noteq> [])"
    then have first: "worker_step pf os w s =
        Some (s\<lparr>m_mutex := Some w, control := (control s)(w := Checking)\<rparr>)"
      using w by (simp add: can_lock_step)
    let ?c = "s\<lparr>m_mutex := Some w, control := (control s)(w := Checking)\<rparr>"
    from a w have second: "worker_step pf os w ?c =
        Some (?c\<lparr>control := (control ?c)(w := Dequeuing)\<rparr>)"
      by (auto simp: worker_step_def)
    have "run pf [Worker w os, Worker w os] s =
        Some (?c\<lparr>control := (control ?c)(w := Dequeuing)\<rparr>)"
      by (simp only: run.simps step.simps first second option.case)
    then show "\<exists>s'. run pf [Worker w os, Worker w os] s = Some s' \<and>
        control s' w = Dequeuing \<and> m_mutex s' = Some w \<and>
        m_tasks s' = m_tasks s \<and> trace s' = trace s"
      by simp
  qed
next
  show "can_lock s w \<and> m_tasks s = [] \<and> \<not> m_quit s \<longrightarrow>
      (\<exists>s'. run pf [Worker w os, Worker w os, Worker w os] s = Some s' \<and>
         control s' w = Blocked \<and> w \<in> set (m_cv s') \<and> m_mutex s' = None \<and>
         m_tasks s' = [] \<and> \<not> m_quit s' \<and> trace s' = trace s)"
  proof
    assume a: "can_lock s w \<and> m_tasks s = [] \<and> \<not> m_quit s"
    then have first: "worker_step pf os w s =
        Some (s\<lparr>m_mutex := Some w, control := (control s)(w := Checking)\<rparr>)"
      using w by (simp add: can_lock_step)
    let ?c = "s\<lparr>m_mutex := Some w, control := (control s)(w := Checking)\<rparr>"
    let ?d = "?c\<lparr>control := (control ?c)(w := Sleeping)\<rparr>"
    from a w have second: "worker_step pf os w ?c = Some ?d"
      by (simp add: worker_step_def)
    from w have third: "worker_step pf os w ?d =
        Some (?d\<lparr>m_mutex := None, m_cv := m_cv ?d @ [w],
          control := (control ?d)(w := Blocked)\<rparr>)"
      by (simp add: worker_step_def)
    have "run pf [Worker w os, Worker w os, Worker w os] s =
        Some (?d\<lparr>m_mutex := None, m_cv := m_cv ?d @ [w],
          control := (control ?d)(w := Blocked)\<rparr>)"
      by (simp only: run.simps step.simps first second third option.case)
    with a show "\<exists>s'. run pf [Worker w os, Worker w os, Worker w os] s = Some s' \<and>
        control s' w = Blocked \<and> w \<in> set (m_cv s') \<and> m_mutex s' = None \<and>
        m_tasks s' = [] \<and> \<not> m_quit s' \<and> trace s' = trace s"
      by simp
  qed
next
  show "can_lock s w \<and> m_tasks s = [] \<and> m_quit s \<longrightarrow>
      (\<exists>s'. run pf [Worker w os, Worker w os, Worker w os] s = Some s' \<and>
         control s' w = Terminal \<and> m_tasks s' = [] \<and> trace s' = trace s \<and>
         (\<forall>acts s''. run pf acts s' = Some s'' \<longrightarrow>
            control s'' w = Terminal \<and> worker_step pf os w s'' = None))"
  proof
    assume a: "can_lock s w \<and> m_tasks s = [] \<and> m_quit s"
    then have first: "worker_step pf os w s =
        Some (s\<lparr>m_mutex := Some w, control := (control s)(w := Checking)\<rparr>)"
      using w by (simp add: can_lock_step)
    let ?c = "s\<lparr>m_mutex := Some w, control := (control s)(w := Checking)\<rparr>"
    let ?d = "?c\<lparr>control := (control ?c)(w := Dequeuing)\<rparr>"
    let ?s' = "?d\<lparr>m_mutex := None, control := (control ?d)(w := Terminal)\<rparr>"
    from a w have second: "worker_step pf os w ?c = Some ?d"
      by (simp add: worker_step_def)
    from a w have third: "worker_step pf os w ?d = Some ?s'"
      by (simp add: worker_step_def)
    have three: "run pf [Worker w os, Worker w os, Worker w os] s = Some ?s'"
      by (simp only: run.simps step.simps first second third option.case)
    have "control s'' w = Terminal \<and> worker_step pf os w s'' = None"
      if "run pf acts ?s' = Some s''" for acts s''
    proof -
      have "control s'' w = Terminal"
        using that by (rule run_terminal) simp
      then show ?thesis
        by (simp add: worker_step_terminal)
    qed
    with three a show "\<exists>s'. run pf [Worker w os, Worker w os, Worker w os] s = Some s' \<and>
        control s' w = Terminal \<and> m_tasks s' = [] \<and> trace s' = trace s \<and>
        (\<forall>acts s''. run pf acts s' = Some s'' \<longrightarrow>
           control s'' w = Terminal \<and> worker_step pf os w s'' = None)"
      by (intro exI [of _ ?s']) simp
  qed
qed

text \<open>
  The pools of the examples are reached from the constructed pool: by the first step
  of the worker, by its first three steps, then by a spurious wake-up, by a
  submission, or by the two steps of the destructor.
\<close>

lemma checking_pool_reached: "run pf [Worker 0 os] pool1 = Some checking_pool"
  by (simp add: pool1_def checking_pool_def worker_step_def)

lemma asleep_pool_reached:
  "run pf [Worker 0 os, Worker 0 os, Worker 0 os] pool1 = Some asleep_pool"
  by (simp add: pool1_def asleep_pool_def worker_step_def)

lemma woken_pool_reached: "run pf [SpuriousWake 0] asleep_pool = Some woken_pool"
  by (simp add: asleep_pool_def woken_pool_def)

lemma fed_pool_reached: "run pf [Add ''A'' Normal] asleep_pool = Some fed_pool"
  by (simp add: asleep_pool_def fed_pool_def add_def notify_one_def pq_emplace_def)

lemma leaving_pool_reached: "run pf [Destroy, Destroy] asleep_pool = Some leaving_pool"
  by (simp add: asleep_pool_def leaving_pool_def notify_all_def)

lemma busy_pool_reached:
  "run pf [Add ''A'' Normal, Worker 0 os, Worker 0 os, Worker 0 os, Add ''B'' High,
      Add ''C'' Normal, Destroy, Destroy] pool1 = Some busy_pool"
  by (simp add: pool1_def busy_pool_def worker_step_def add_def notify_one_def notify_all_def
      pq_emplace_def TaskPriorityComparator_def)

lemma notified_pool_reached:
  "run pf [Add ''A'' Normal, Destroy, Destroy] asleep_pool = Some notified_pool"
  by (simp add: asleep_pool_def notified_pool_def add_def notify_one_def notify_all_def
      pq_emplace_def)

text \<open>
  At the predicate with nothing pending the worker goes to sleep, and asleep it has
  no step. Woken by a submission it is past the wait after two steps; woken
  spuriously it is asleep again after three; woken by the destructor with nothing
  pending it has left the loop for good after three.
\<close>

theorem wait_predicate_witness:
  "run Linux [Worker 0 os_ok] pool1 = Some checking_pool \<and>
   run Linux [Worker 0 os_ok, Worker 0 os_ok, Worker 0 os_ok] pool1 = Some asleep_pool \<and>
   run Linux [SpuriousWake 0] asleep_pool = Some woken_pool \<and>
   run Linux [Add ''A'' Normal] asleep_pool = Some fed_pool \<and>
   run Linux [Destroy, Destroy] asleep_pool = Some leaving_pool \<and>
   waiting (control checking_pool 0) \<and> control checking_pool 0 = Checking \<and>
   (\<exists>s'. worker_step Linux os_ok 0 checking_pool = Some s' \<and> control s' 0 = Sleeping \<and>
      waiting (control s' 0) \<and> m_tasks s' = [] \<and> trace s' = []) \<and>
   control asleep_pool 0 = Blocked \<and> 0 \<in> set (m_cv asleep_pool) \<and>
   worker_step Linux os_ok 0 asleep_pool = None \<and>
   can_lock fed_pool 0 \<and> m_tasks fed_pool \<noteq> [] \<and>
   (\<exists>s'. run Linux [Worker 0 os_ok, Worker 0 os_ok] fed_pool = Some s' \<and>
      control s' 0 = Dequeuing \<and> m_tasks s' = [(''A'', Normal)]) \<and>
   can_lock woken_pool 0 \<and> m_tasks woken_pool = [] \<and> \<not> m_quit woken_pool \<and>
   (\<exists>s'. run Linux [Worker 0 os_ok, Worker 0 os_ok, Worker 0 os_ok] woken_pool = Some s' \<and>
      control s' 0 = Blocked \<and> 0 \<in> set (m_cv s') \<and> trace s' = []) \<and>
   can_lock leaving_pool 0 \<and> m_tasks leaving_pool = [] \<and> m_quit leaving_pool \<and>
   (\<exists>s'. run Linux [Worker 0 os_ok, Worker 0 os_ok, Worker 0 os_ok] leaving_pool = Some s' \<and>
      control s' 0 = Terminal \<and> worker_step Linux os_ok 0 s' = None)"
proof -
  have c: "0 \<in> set (m_threads checking_pool)" "control checking_pool 0 = Checking"
    "waiting (control checking_pool 0)" "\<not> m_quit checking_pool" "m_tasks checking_pool = []"
    "trace checking_pool = []"
    by (simp_all add: checking_pool_def)
  have a: "0 \<in> set (m_threads asleep_pool)"
    "control asleep_pool 0 = Blocked \<and> 0 \<in> set (m_cv asleep_pool)"
    by (simp_all add: asleep_pool_def)
  have f: "0 \<in> set (m_threads fed_pool)"
    "can_lock fed_pool 0 \<and> (m_quit fed_pool \<or> m_tasks fed_pool \<noteq> [])"
    "m_tasks fed_pool = [(''A'', Normal)]"
    by (simp_all add: fed_pool_def can_lock_def)
  have pending: "m_tasks fed_pool \<noteq> []"
    by (simp add: f(3))
  have k: "0 \<in> set (m_threads woken_pool)"
    "can_lock woken_pool 0 \<and> m_tasks woken_pool = [] \<and> \<not> m_quit woken_pool"
    "trace woken_pool = []"
    by (simp_all add: woken_pool_def can_lock_def)
  have l: "0 \<in> set (m_threads leaving_pool)"
    "can_lock leaving_pool 0 \<and> m_tasks leaving_pool = [] \<and> m_quit leaving_pool"
    by (simp_all add: leaving_pool_def can_lock_def)
  from wait_predicate [OF c(1), of Linux os_ok, THEN conjunct2, THEN conjunct1, rule_format,
      OF c(2)]
  obtain s1 where s1: "worker_step Linux os_ok 0 checking_pool = Some s1"
    "control s1 0 = Sleeping" "m_tasks s1 = []" "trace s1 = []"
    using c(4-6) by auto
  from wait_predicate [OF c(1), of Linux os_ok, THEN conjunct1, rule_format,
      OF conjI [OF c(3) s1(1)]]
  have "waiting (control s1 0)"
    using s1(2) by simp
  with s1 have first: "\<exists>s'. worker_step Linux os_ok 0 checking_pool = Some s' \<and>
      control s' 0 = Sleeping \<and> waiting (control s' 0) \<and> m_tasks s' = [] \<and> trace s' = []"
    by blast
  from wait_predicate [OF a(1), of Linux os_ok, THEN conjunct2, THEN conjunct2,
      THEN conjunct1, rule_format, OF a(2)]
  have second: "worker_step Linux os_ok 0 asleep_pool = None" .
  from wait_predicate [OF f(1), of Linux os_ok, THEN conjunct2, THEN conjunct2,
      THEN conjunct2, THEN conjunct1, rule_format, OF f(2)]
  have third: "\<exists>s'. run Linux [Worker 0 os_ok, Worker 0 os_ok] fed_pool = Some s' \<and>
      control s' 0 = Dequeuing \<and> m_tasks s' = [(''A'', Normal)]"
    unfolding f(3) by blast
  from wait_predicate [OF k(1), of Linux os_ok, THEN conjunct2, THEN conjunct2,
      THEN conjunct2, THEN conjunct2, THEN conjunct1, rule_format, OF k(2)]
  have fourth: "\<exists>s'. run Linux [Worker 0 os_ok, Worker 0 os_ok, Worker 0 os_ok] woken_pool =
      Some s' \<and> control s' 0 = Blocked \<and> 0 \<in> set (m_cv s') \<and> trace s' = []"
    unfolding k(3) by blast
  from wait_predicate [OF l(1), of Linux os_ok, THEN conjunct2, THEN conjunct2,
      THEN conjunct2, THEN conjunct2, THEN conjunct2, rule_format, OF l(2)]
  obtain s5 where s5: "run Linux [Worker 0 os_ok, Worker 0 os_ok, Worker 0 os_ok] leaving_pool =
      Some s5" "control s5 0 = Terminal"
    and stays: "\<forall>acts s''. run Linux acts s5 = Some s'' \<longrightarrow>
      control s'' 0 = Terminal \<and> worker_step Linux os_ok 0 s'' = None"
    by blast
  from stays [rule_format, of "[]" s5] have "worker_step Linux os_ok 0 s5 = None"
    by simp
  with s5 have fifth: "\<exists>s'. run Linux [Worker 0 os_ok, Worker 0 os_ok, Worker 0 os_ok]
      leaving_pool = Some s' \<and> control s' 0 = Terminal \<and> worker_step Linux os_ok 0 s' = None"
    by blast
  from checking_pool_reached [of Linux os_ok] asleep_pool_reached [of Linux os_ok]
    woken_pool_reached [of Linux] fed_pool_reached [of Linux] leaving_pool_reached [of Linux]
    c(2) c(3) first a(2) second f(2) pending third k(2) fourth l(2) fifth
  show ?thesis
    by blast
qed

text \<open>
  What the specification states does not hold in the direction from the condition to
  the worker: the queue can be non-empty while a worker stays in the wait. With both
  workers of a pool of two asleep, a batch of two records notifies once; worker 1 is
  still blocked, unnotified and without a step, while both records are pending.
\<close>

lemma pool2_constructed: "PriorityThreadPool host 2 = Inr pool2"
  using spawn_eq [of 0 2 host "[]"]
  by (simp add: PriorityThreadPool_def reserve_def pool2_def host_def upt_rec)

theorem wait_condition_counterexample:
  "PriorityThreadPool host 2 = Inr pool2 \<and>
   run Linux [Worker 0 os_ok, Worker 0 os_ok, Worker 0 os_ok, Worker 1 os_ok, Worker 1 os_ok,
     Worker 1 os_ok, AddSpan [(''A'', Normal), (''B'', Normal)]] pool2 = Some batch_pool \<and>
   m_tasks batch_pool = [(''A'', Normal), (''B'', Normal)] \<and>
   control batch_pool 1 = Blocked \<and> waiting (control batch_pool 1) \<and>
   m_cv batch_pool = [1] \<and> worker_step Linux os_ok 1 batch_pool = None"
proof -
  have "run Linux [Worker 0 os_ok, Worker 0 os_ok, Worker 0 os_ok, Worker 1 os_ok,
      Worker 1 os_ok, Worker 1 os_ok, AddSpan [(''A'', Normal), (''B'', Normal)]] pool2 =
      Some batch_pool"
    by (simp add: pool2_def batch_pool_def worker_step_def add_span_def notify_one_def
        pq_push_def)
  moreover have "m_tasks batch_pool = [(''A'', Normal), (''B'', Normal)] \<and>
      control batch_pool 1 = Blocked \<and> waiting (control batch_pool 1) \<and>
      m_cv batch_pool = [1] \<and> worker_step Linux os_ok 1 batch_pool = None"
    by (simp add: batch_pool_def worker_step_def)
  ultimately show ?thesis
    using pool2_constructed by blast
qed

subsection \<open>The branch of line 106\<close>

text \<open>
  The wait returns with the mutex held and its predicate true, the flag is never
  unset, and only the holder of the mutex takes records. So in a pool that a run
  reaches from a constructed pool no worker is past the wait with an empty queue and
  the flag unset: the \<^verbatim>\<open>continue\<close> of line 106 is never taken, and a worker woken
  with nothing to do goes back to sleep inside the wait.
\<close>

lemma worker_step_crit_inv:
  assumes inv: "crit_inv s" and step: "worker_step pf os v s = Some s'"
  shows "crit_inv s'"
  unfolding crit_inv_def
proof (intro allI impI)
  fix w
  assume w': "w \<in> set (m_threads s')"
  from step have v: "v \<in> set (m_threads s)"
    and adv: "advance pf os v (control s v) s = Some s'"
    by (simp_all add: worker_step_def split: if_splits)
  from step w' have w: "w \<in> set (m_threads s)"
    by (simp add: worker_step_threads)
  from inv w have iw:
    "control s w = Checking \<or> control s w = Sleeping \<or> control s w = Dequeuing \<Longrightarrow>
       m_mutex s = Some w"
    "control s w = Dequeuing \<Longrightarrow> m_quit s \<or> m_tasks s \<noteq> []"
    unfolding crit_inv_def by blast+
  from inv v have iv:
    "control s v = Checking \<or> control s v = Sleeping \<or> control s v = Dequeuing \<Longrightarrow>
       m_mutex s = Some v"
    unfolding crit_inv_def by blast
  show "((control s' w = Checking \<or> control s' w = Sleeping \<or> control s' w = Dequeuing) \<longrightarrow>
        m_mutex s' = Some w) \<and>
     (control s' w = Dequeuing \<longrightarrow> m_quit s' \<or> m_tasks s' \<noteq> [])"
  proof (cases "control s v")
    case Locking
    with adv iw iv show ?thesis
      by (cases "w = v") (auto split: if_splits)
  next
    case Checking
    with adv iw iv show ?thesis
      by (cases "w = v") (auto split: if_splits)
  next
    case Sleeping
    with adv iw iv show ?thesis
      by (cases "w = v") (auto split: if_splits)
  next
    case Blocked
    with adv iw iv show ?thesis
      by (cases "w = v") (auto split: if_splits)
  next
    case Dequeuing
    with adv iw iv show ?thesis
      by (cases "w = v") (auto split: if_splits option.splits)
  next
    case (Adapting task)
    with adv iw iv show ?thesis
      by (cases "w = v") (auto split: if_splits)
  next
    case (Executing task)
    with adv iw iv show ?thesis
      by (cases "w = v") (auto split: if_splits)
  next
    case Terminal
    with adv show ?thesis
      by simp
  qed
qed

lemma step_crit_inv:
  assumes inv: "crit_inv s" and step: "step pf a s = Some s'"
  shows "crit_inv s'"
proof (cases a)
  case (Worker w os)
  with step have "worker_step pf os w s = Some s'"
    by simp
  with inv show ?thesis
    by (rule worker_step_crit_inv)
next
  case (Add task priority)
  with step have "m_mutex s = None" and "m_mutex s' = None" "control s' = control s"
    "m_threads s' = m_threads s"
    by (auto simp: add_def notify_one_frame split: if_splits)
  with inv show ?thesis
    by (auto simp: crit_inv_def)
next
  case (AddSpan tasks)
  with step have "m_mutex s = None" and "m_mutex s' = None" "control s' = control s"
    "m_threads s' = m_threads s"
    by (auto simp: add_span_def notify_one_frame split: if_splits)
  with inv show ?thesis
    by (auto simp: crit_inv_def)
next
  case Destroy
  with step have "m_mutex s' = m_mutex s" "control s' = control s"
    "m_threads s' = m_threads s" "m_tasks s' = m_tasks s" "m_quit s \<longrightarrow> m_quit s'"
    by (auto simp: notify_all_def split: if_splits dtor_pc.splits)
  with inv show ?thesis
    unfolding crit_inv_def by metis
next
  case (SpuriousWake w)
  with step have "s' = s\<lparr>m_cv := removeAll w (m_cv s)\<rparr>"
    by (auto split: if_splits)
  with inv show ?thesis
    by (simp add: crit_inv_def)
qed

lemma run_crit_inv: "crit_inv s \<Longrightarrow> run pf acts s = Some s' \<Longrightarrow> crit_inv s'"
proof (induction acts arbitrary: s)
  case Nil
  then show ?case
    by simp
next
  case (Cons a acts)
  from Cons.prems(2) obtain s1
    where a: "step pf a s = Some s1" and rest: "run pf acts s1 = Some s'"
    by (auto split: option.splits)
  from Cons.prems(1) a have "crit_inv s1"
    by (rule step_crit_inv)
  then show ?case
    using rest by (rule Cons.IH)
qed

lemma continue_branch_unreachable:
  assumes "PriorityThreadPool env n = Inr s0" and "run pf acts s0 = Some s"
    and "w \<in> set (m_threads s)" and "control s w = Dequeuing"
  shows "m_quit s \<or> m_tasks s \<noteq> []"
proof -
  from assms(1) have "crit_inv s0"
    by (auto simp: PriorityThreadPool_def crit_inv_def split: if_splits option.splits
        sum.splits)
  then have "crit_inv s"
    using assms(2) by (rule run_crit_inv)
  with assms(3) assms(4) show ?thesis
    unfolding crit_inv_def by blast
qed

section \<open>Shutdown\<close>

lemma run_append:
  "run pf (as @ bs) s = (case run pf as s of None \<Rightarrow> None | Some s' \<Rightarrow> run pf bs s')"
  by (induction as arbitrary: s) (simp_all split: option.splits)

lemma pq_pop_length:
  assumes "q \<noteq> []"
  shows "length (pq_pop cmp q) = length q - 1"
proof -
  from assms obtain b ys where q: "q = b # ys"
    by (cases q) auto
  have "pq_scan cmp b ys \<in> set (b # ys)"
    by (rule pq_scan_member)
  then show ?thesis
    unfolding q by (simp add: length_remove1 del: remove1.simps)
qed

lemma pq_pop_tasks:
  assumes "pq_top cmp q = Some task"
  shows "mset (map fst (pq_pop cmp q)) + {#fst task#} = mset (map fst q)"
proof -
  from assms obtain b ys where q: "q = b # ys" and task: "task = pq_scan cmp b ys"
    by (cases q) auto
  have "task \<in># mset q"
    unfolding q task using pq_scan_member [of cmp b ys] by simp
  then have "mset (pq_pop cmp q) + {#task#} = mset q"
    by (simp add: pq_pop_mset [OF assms])
  then have "image_mset fst (mset (pq_pop cmp q) + {#task#}) = image_mset fst (mset q)"
    by simp
  then show ?thesis
    by simp
qed

text \<open>One turn of the loop with a record pending: five steps of the worker.\<close>

lemma worker_iteration:
  assumes w: "w \<in> set (m_threads s)" and at: "control s w = Locking"
    and free: "m_mutex s = None" and pending: "m_tasks s \<noteq> []"
  shows "\<exists>task s'. pq_top (TaskPriorityComparator pf) (m_tasks s) = Some task \<and>
      run pf (replicate 5 (Worker w os)) s = Some s' \<and>
      m_tasks s' = pq_pop (TaskPriorityComparator pf) (m_tasks s) \<and>
      trace s' = trace s @ adapt pf os w (priority_value pf (snd task)) @ [Invoked w (fst task)] \<and>
      control s' w = Locking \<and> m_mutex s' = None \<and> m_threads s' = m_threads s \<and>
      m_quit s' = m_quit s"
proof -
  from pending obtain task where top: "pq_top (TaskPriorityComparator pf) (m_tasks s) = Some task"
    by (cases "m_tasks s") auto
  have five: "replicate 5 (Worker w os) =
      [Worker w os, Worker w os, Worker w os, Worker w os, Worker w os]"
    by (simp add: numeral_eq_Suc)
  show ?thesis
    unfolding five using w at free pending top
    by (simp add: worker_step_def)
qed

text \<open>The last turn, with the queue empty and the flag set: three steps.\<close>

lemma worker_exit:
  assumes w: "w \<in> set (m_threads s)" and at: "control s w = Locking"
    and free: "m_mutex s = None" and empty: "m_tasks s = []" and quit: "m_quit s"
  shows "\<exists>s'. run pf (replicate 3 (Worker w os)) s = Some s' \<and> control s' w = Terminal \<and>
      m_tasks s' = [] \<and> trace s' = trace s"
proof -
  have three: "replicate 3 (Worker w os) = [Worker w os, Worker w os, Worker w os]"
    by (simp add: numeral_eq_Suc)
  show ?thesis
    unfolding three using w at free empty quit
    by (simp add: worker_step_def)
qed

lemma worker_drains:
  assumes "length (m_tasks s) = n" and "m_quit s" and "w \<in> set (m_threads s)"
    and "control s w = Locking" and "m_mutex s = None"
  shows "\<exists>s'. run pf (replicate (5 * n + 3) (Worker w os)) s = Some s' \<and>
      control s' w = Terminal \<and> m_tasks s' = [] \<and>
      mset (invoked (trace s')) = mset (invoked (trace s)) + mset (map fst (m_tasks s))"
  using assms
proof (induction n arbitrary: s)
  case 0
  then have "m_tasks s = []"
    by simp
  with 0 worker_exit [of w s pf os] show ?case
    by auto
next
  case (Suc n)
  then have pending: "m_tasks s \<noteq> []"
    by auto
  from worker_iteration [OF Suc.prems(3) Suc.prems(4) Suc.prems(5) pending, of pf os]
  obtain task s1 where top: "pq_top (TaskPriorityComparator pf) (m_tasks s) = Some task"
    and run1: "run pf (replicate 5 (Worker w os)) s = Some s1"
    and q1: "m_tasks s1 = pq_pop (TaskPriorityComparator pf) (m_tasks s)"
    and t1: "trace s1 =
      trace s @ adapt pf os w (priority_value pf (snd task)) @ [Invoked w (fst task)]"
    and rest1: "control s1 w = Locking" "m_mutex s1 = None" "m_threads s1 = m_threads s"
      "m_quit s1 = m_quit s"
    by blast
  have len: "length (m_tasks s1) = n"
    using Suc.prems(1) pending by (simp add: q1 pq_pop_length)
  from Suc.IH [OF len] rest1 Suc.prems(2) Suc.prems(3)
  obtain s' where run2: "run pf (replicate (5 * n + 3) (Worker w os)) s1 = Some s'"
    and fin: "control s' w = Terminal" "m_tasks s' = []"
    and inv: "mset (invoked (trace s')) = mset (invoked (trace s1)) + mset (map fst (m_tasks s1))"
    by auto
  have split: "replicate (5 * Suc n + 3) (Worker w os) =
      replicate 5 (Worker w os) @ replicate (5 * n + 3) (Worker w os)"
    by (simp add: replicate_add [symmetric])
  have run: "run pf (replicate (5 * Suc n + 3) (Worker w os)) s = Some s'"
    unfolding split by (simp only: run_append run1 run2 option.case)
  have "invoked (trace s1) = invoked (trace s) @ [fst task]"
    by (simp add: t1 invoked_append adapt_invoked)
  with inv have "mset (invoked (trace s')) =
      mset (invoked (trace s)) + (mset (map fst (m_tasks s1)) + {#fst task#})"
    by simp
  also have "mset (map fst (m_tasks s1)) + {#fst task#} = mset (map fst (m_tasks s))"
    unfolding q1 by (rule pq_pop_tasks [OF top])
  finally show ?case
    using run fin by blast
qed

lemma terminal_only_when_drained:
  assumes "worker_step pf os w t = Some t'" and "control t' w = Terminal"
  shows "control t w = Dequeuing \<and> m_quit t \<and> m_tasks t = []"
proof -
  from assms(1) have adv: "advance pf os w (control t w) t = Some t'"
    by (simp add: worker_step_def split: if_splits)
  from adv assms(2) show ?thesis
    by (cases "control t w") (auto split: if_splits option.splits)
qed

subsection \<open>From every control point of an awake worker\<close>

lemma drained_after_step:
  assumes "worker_step pf os w s = Some s1"
    and "drained_after pf os w k tasks1 s1"
    and "mset (invoked (trace s1)) + mset tasks1 = mset (invoked (trace s)) + mset tasks"
  shows "drained_after pf os w (Suc k) tasks s"
proof -
  from assms(2) obtain s' where "run pf (replicate k (Worker w os)) s1 = Some s'"
    and "control s' w = Terminal" "m_tasks s' = []"
    and "mset (invoked (trace s')) = mset (invoked (trace s1)) + mset tasks1"
    unfolding drained_after_def by blast
  with assms(1) assms(3) show ?thesis
    unfolding drained_after_def by (intro exI [of _ s']) simp
qed

lemma drains_locking:
  assumes "m_quit s" and "w \<in> set (m_threads s)" and "control s w = Locking"
    and "m_mutex s = None"
  shows "drained_after pf os w (5 * length (m_tasks s) + 3) (map fst (m_tasks s)) s"
  unfolding drained_after_def using refl assms by (rule worker_drains)

lemma drains_executing:
  assumes quit: "m_quit s" and w: "w \<in> set (m_threads s)"
    and at: "control s w = Executing task" and free: "m_mutex s = None"
  shows "drained_after pf os w (5 * length (m_tasks s) + 4) (fst task # map fst (m_tasks s)) s"
proof -
  let ?s1 = "s\<lparr>control := (control s)(w := Locking),
               trace := trace s @ [Invoked w (fst task)]\<rparr>"
  have step: "worker_step pf os w s = Some ?s1"
    using w at by (simp add: worker_step_def)
  have "drained_after pf os w (5 * length (m_tasks ?s1) + 3) (map fst (m_tasks ?s1)) ?s1"
    using quit w free by (intro drains_locking) simp_all
  then have rest: "drained_after pf os w (5 * length (m_tasks s) + 3) (map fst (m_tasks s)) ?s1"
    by simp
  have eq: "5 * length (m_tasks s) + 4 = Suc (5 * length (m_tasks s) + 3)"
    by simp
  show ?thesis
    unfolding eq using step rest by (rule drained_after_step) (simp add: invoked_append)
qed

lemma drains_adapting:
  assumes quit: "m_quit s" and w: "w \<in> set (m_threads s)"
    and at: "control s w = Adapting task" and free: "m_mutex s = None"
  shows "drained_after pf os w (5 * length (m_tasks s) + 5) (fst task # map fst (m_tasks s)) s"
proof -
  let ?s1 = "s\<lparr>control := (control s)(w := Executing task),
               trace := trace s @ adapt pf os w (priority_value pf (snd task))\<rparr>"
  have step: "worker_step pf os w s = Some ?s1"
    using w at by (simp add: worker_step_def)
  have "drained_after pf os w (5 * length (m_tasks ?s1) + 4)
      (fst task # map fst (m_tasks ?s1)) ?s1"
    using quit w free by (intro drains_executing) simp_all
  then have rest: "drained_after pf os w (5 * length (m_tasks s) + 4)
      (fst task # map fst (m_tasks s)) ?s1"
    by simp
  have eq: "5 * length (m_tasks s) + 5 = Suc (5 * length (m_tasks s) + 4)"
    by simp
  show ?thesis
    unfolding eq using step rest by (rule drained_after_step) (simp add: invoked_append adapt_invoked)
qed

lemma drains_dequeuing:
  assumes quit: "m_quit s" and w: "w \<in> set (m_threads s)" and at: "control s w = Dequeuing"
  shows "drained_after pf os w (5 * length (m_tasks s) + 1) (map fst (m_tasks s)) s"
proof (cases "m_tasks s = []")
  case True
  let ?s1 = "s\<lparr>m_mutex := None, control := (control s)(w := Terminal)\<rparr>"
  have step: "worker_step pf os w s = Some ?s1"
    using w at quit True by (simp add: worker_step_def)
  have now: "drained_after pf os w 0 [] ?s1"
    using True by (simp add: drained_after_def)
  have "drained_after pf os w (Suc 0) (map fst (m_tasks s)) s"
    using step now by (rule drained_after_step) (simp add: True)
  with True show ?thesis
    by simp
next
  case False
  then obtain task where top: "pq_top (TaskPriorityComparator pf) (m_tasks s) = Some task"
    by (cases "m_tasks s") auto
  let ?q = "pq_pop (TaskPriorityComparator pf) (m_tasks s)"
  let ?s1 = "s\<lparr>m_tasks := ?q, m_mutex := None, control := (control s)(w := Adapting task)\<rparr>"
  have step: "worker_step pf os w s = Some ?s1"
    using w at False top by (simp add: worker_step_def)
  have len: "length ?q = length (m_tasks s) - 1"
    using False by (rule pq_pop_length)
  have "drained_after pf os w (5 * length (m_tasks ?s1) + 5)
      (fst task # map fst (m_tasks ?s1)) ?s1"
    using quit w by (intro drains_adapting) simp_all
  then have rest: "drained_after pf os w (5 * length ?q + 5) (fst task # map fst ?q) ?s1"
    by simp
  have "drained_after pf os w (Suc (5 * length ?q + 5)) (map fst (m_tasks s)) s"
    using step rest
  proof (rule drained_after_step)
    have "mset (fst task # map fst ?q) = mset (map fst (m_tasks s))"
      using pq_pop_tasks [OF top] by simp
    then show "mset (invoked (trace ?s1)) + mset (fst task # map fst ?q) =
        mset (invoked (trace s)) + mset (map fst (m_tasks s))"
      by simp
  qed
  moreover have "Suc (5 * length ?q + 5) = 5 * length (m_tasks s) + 1"
    using False len by (cases "m_tasks s") simp_all
  ultimately show ?thesis
    by simp
qed

lemma drains_checking:
  assumes quit: "m_quit s" and w: "w \<in> set (m_threads s)" and at: "control s w = Checking"
  shows "drained_after pf os w (5 * length (m_tasks s) + 2) (map fst (m_tasks s)) s"
proof -
  let ?s1 = "s\<lparr>control := (control s)(w := Dequeuing)\<rparr>"
  have step: "worker_step pf os w s = Some ?s1"
    using w at quit by (simp add: worker_step_def)
  have "drained_after pf os w (5 * length (m_tasks ?s1) + 1) (map fst (m_tasks ?s1)) ?s1"
    using quit w by (intro drains_dequeuing) simp_all
  then have rest: "drained_after pf os w (5 * length (m_tasks s) + 1) (map fst (m_tasks s)) ?s1"
    by simp
  have eq: "5 * length (m_tasks s) + 2 = Suc (5 * length (m_tasks s) + 1)"
    by simp
  show ?thesis
    unfolding eq using step rest by (rule drained_after_step) simp
qed

lemma drains_woken:
  assumes quit: "m_quit s" and w: "w \<in> set (m_threads s)" and c: "can_lock s w"
  shows "drained_after pf os w (5 * length (m_tasks s) + 3) (map fst (m_tasks s)) s"
proof -
  let ?s1 = "s\<lparr>m_mutex := Some w, control := (control s)(w := Checking)\<rparr>"
  have step: "worker_step pf os w s = Some ?s1"
    using w c by (rule can_lock_step)
  have "drained_after pf os w (5 * length (m_tasks ?s1) + 2) (map fst (m_tasks ?s1)) ?s1"
    using quit w by (intro drains_checking) simp_all
  then have rest: "drained_after pf os w (5 * length (m_tasks s) + 2) (map fst (m_tasks s)) ?s1"
    by simp
  have eq: "5 * length (m_tasks s) + 3 = Suc (5 * length (m_tasks s) + 2)"
    by simp
  show ?thesis
    unfolding eq using step rest by (rule drained_after_step) simp
qed

lemma awake_drains:
  assumes quit: "m_quit s" and w: "w \<in> set (m_threads s)" and awake: "awake s w"
  shows "drained_after pf os w (steps_left (control s w) (length (m_tasks s)))
    (map fst (in_hand (control s w) @ m_tasks s)) s"
proof (cases "control s w")
  case Locking
  with awake have "can_lock s w"
    by (simp add: awake_def can_lock_def)
  from drains_woken [OF quit w this, of pf os] Locking show ?thesis
    by simp
next
  case Checking
  with drains_checking [OF quit w, of pf os] show ?thesis
    by simp
next
  case Sleeping
  with awake show ?thesis
    by (simp add: awake_def)
next
  case Blocked
  with awake have "can_lock s w"
    by (simp add: awake_def can_lock_def)
  from drains_woken [OF quit w this, of pf os] Blocked show ?thesis
    by simp
next
  case Dequeuing
  with drains_dequeuing [OF quit w, of pf os] show ?thesis
    by simp
next
  case (Adapting task)
  with awake have "m_mutex s = None"
    by (simp add: awake_def)
  from drains_adapting [OF quit w Adapting this, of pf os] Adapting show ?thesis
    by simp
next
  case (Executing task)
  with awake have "m_mutex s = None"
    by (simp add: awake_def)
  from drains_executing [OF quit w Executing this, of pf os] Executing show ?thesis
    by simp
next
  case Terminal
  with awake show ?thesis
    by (simp add: awake_def)
qed

text \<open>
  C1, as the code has it. The shutdown flag does not stop a worker from dequeuing: a
  worker leaves its loop only at line 104, where it has found the queue empty with
  the flag set. So the records still queued when destruction begins are not dropped.
  In every pool with the flag set, a worker that is awake (at the head of its loop or
  woken in the wait with the mutex free, holding the mutex at the predicate or past
  the wait, or adapting to or executing a record with the mutex free) and that is left
  to run alone calls the task it has in hand and every pending task once, and then
  reaches its terminal state with the queue empty. Nothing is said here of a worker
  that is asleep in the wait, or about to fall asleep there, when the flag is set.
\<close>

theorem shutdown_drains_queue:
  assumes quit: "m_quit s" and w: "w \<in> set (m_threads s)" and awake: "awake s w"
  shows "(\<exists>s'. run pf (replicate (steps_left (control s w) (length (m_tasks s))) (Worker w os)) s =
              Some s' \<and>
            control s' w = Terminal \<and> m_tasks s' = [] \<and>
            mset (invoked (trace s')) =
              mset (invoked (trace s)) + mset (map fst (in_hand (control s w) @ m_tasks s))) \<and>
         (\<forall>t t'. worker_step pf os w t = Some t' \<and> control t' w = Terminal \<longrightarrow>
            control t w = Dequeuing \<and> m_quit t \<and> m_tasks t = [])"
proof
  show "\<exists>s'. run pf (replicate (steps_left (control s w) (length (m_tasks s))) (Worker w os)) s =
        Some s' \<and>
      control s' w = Terminal \<and> m_tasks s' = [] \<and>
      mset (invoked (trace s')) =
        mset (invoked (trace s)) + mset (map fst (in_hand (control s w) @ m_tasks s))"
    using awake_drains [OF quit w awake, of pf os] unfolding drained_after_def .
  show "\<forall>t t'. worker_step pf os w t = Some t' \<and> control t' w = Terminal \<longrightarrow>
      control t w = Dequeuing \<and> m_quit t \<and> m_tasks t = []"
    using terminal_only_when_drained by blast
qed

text \<open>
  The worker is asleep in the wait when record A is submitted and the pool is
  destroyed; woken by the submission, it calls A and has left its loop after eight
  steps. A worker that is adapting to record A when B and C are submitted and the
  pool is destroyed calls all three in fifteen steps.
\<close>

theorem shutdown_drains_queue_witness:
  "PriorityThreadPool host 1 = Inr pool1 \<and>
   run Linux [Worker 0 os_ok, Worker 0 os_ok, Worker 0 os_ok] pool1 = Some asleep_pool \<and>
   run Linux [Add ''A'' Normal, Destroy, Destroy] asleep_pool = Some notified_pool \<and>
   m_quit notified_pool \<and> 0 \<in> set (m_threads notified_pool) \<and> awake notified_pool 0 \<and>
   control notified_pool 0 = Blocked \<and> m_tasks notified_pool = [(''A'', Normal)] \<and>
   (\<exists>s'. run Linux (replicate 8 (Worker 0 os_ok)) notified_pool = Some s' \<and>
      control s' 0 = Terminal \<and> m_tasks s' = [] \<and> mset (invoked (trace s')) = {#''A''#}) \<and>
   run Linux [Add ''A'' Normal, Worker 0 os_ok, Worker 0 os_ok, Worker 0 os_ok, Add ''B'' High,
      Add ''C'' Normal, Destroy, Destroy] pool1 = Some busy_pool \<and>
   m_quit busy_pool \<and> 0 \<in> set (m_threads busy_pool) \<and> awake busy_pool 0 \<and>
   control busy_pool 0 = Adapting (''A'', Normal) \<and>
   m_tasks busy_pool = [(''B'', High), (''C'', Normal)] \<and>
   (\<exists>s'. run Linux (replicate 15 (Worker 0 os_ok)) busy_pool = Some s' \<and>
      control s' 0 = Terminal \<and> m_tasks s' = [] \<and>
      mset (invoked (trace s')) = {#''A'', ''B'', ''C''#})"
proof -
  have n: "m_quit notified_pool" "0 \<in> set (m_threads notified_pool)" "awake notified_pool 0"
    by (simp_all add: notified_pool_def awake_def)
  have nq: "control notified_pool 0 = Blocked" "m_tasks notified_pool = [(''A'', Normal)]"
    "trace notified_pool = []"
    by (simp_all add: notified_pool_def)
  have h: "m_quit busy_pool" "0 \<in> set (m_threads busy_pool)" "awake busy_pool 0"
    by (simp_all add: busy_pool_def awake_def)
  have hq: "control busy_pool 0 = Adapting (''A'', Normal)"
    "m_tasks busy_pool = [(''B'', High), (''C'', Normal)]" "trace busy_pool = []"
    by (simp_all add: busy_pool_def)
  from shutdown_drains_queue [OF n, of Linux os_ok, THEN conjunct1]
  have first: "\<exists>s'. run Linux (replicate 8 (Worker 0 os_ok)) notified_pool = Some s' \<and>
      control s' 0 = Terminal \<and> m_tasks s' = [] \<and> mset (invoked (trace s')) = {#''A''#}"
    unfolding nq by simp
  from shutdown_drains_queue [OF h, of Linux os_ok, THEN conjunct1]
  have second: "\<exists>s'. run Linux (replicate 15 (Worker 0 os_ok)) busy_pool = Some s' \<and>
      control s' 0 = Terminal \<and> m_tasks s' = [] \<and>
      mset (invoked (trace s')) = {#''A'', ''B'', ''C''#}"
    unfolding hq by simp
  from pool1_constructed asleep_pool_reached [of Linux os_ok] notified_pool_reached [of Linux]
    busy_pool_reached [of Linux os_ok] n nq(1) nq(2) first h hq(1) hq(2) second
  show ?thesis
    by blast
qed

text \<open>
  What the specification states does not hold: destruction begins with record A in
  the queue, and the next five steps of the worker pop it and call it.
\<close>

theorem shutdown_drop_counterexample:
  "PriorityThreadPool host 1 = Inr pool1 \<and>
   run Linux [Add ''A'' Normal, Destroy, Destroy] pool1 = Some shutdown_pool \<and>
   m_quit shutdown_pool \<and> m_tasks shutdown_pool = [(''A'', Normal)] \<and>
   invoked (trace shutdown_pool) = [] \<and>
   run Linux [Worker 0 os_ok, Worker 0 os_ok, Worker 0 os_ok, Worker 0 os_ok, Worker 0 os_ok]
     shutdown_pool = Some drained_pool \<and>
   m_tasks drained_pool = [] \<and> invoked (trace drained_pool) = [''A'']"
proof -
  have "run Linux [Add ''A'' Normal, Destroy, Destroy] pool1 = Some shutdown_pool"
    by (simp add: pool1_def shutdown_pool_def add_def notify_one_def notify_all_def
        pq_emplace_def)
  moreover have "run Linux
      [Worker 0 os_ok, Worker 0 os_ok, Worker 0 os_ok, Worker 0 os_ok, Worker 0 os_ok]
      shutdown_pool = Some drained_pool"
    by (simp add: shutdown_pool_def drained_pool_def worker_step_def os_ok_def
        priority_value_linux fun_upd_idem_iff)
  moreover have "m_quit shutdown_pool \<and> m_tasks shutdown_pool = [(''A'', Normal)] \<and>
      invoked (trace shutdown_pool) = [] \<and> m_tasks drained_pool = [] \<and>
      invoked (trace drained_pool) = [''A'']"
    by (simp add: shutdown_pool_def drained_pool_def)
  ultimately show ?thesis
    using pool1_constructed by blast
qed

text \<open>
  C8 fails on the code. The destructor stores the shutdown flag and notifies without
  holding the mutex (lines 143 and 144), so both can fall between a worker's
  evaluation of the wait predicate and its entry into \<^verbatim>\<open>m_cv.wait\<close>. In the run
  below the only worker takes the mutex and finds the predicate false, the destructor
  sets the flag and notifies nobody, and the worker then blocks. The pool it reaches
  has the flag set, the worker blocked, and the destructor waiting in the join:
  neither a worker nor the destroying thread has a step left, and only an event from
  outside, a spurious wake-up or a further submission, could move it.
\<close>

theorem shutdown_wakeup_lost:
  "PriorityThreadPool host 1 = Inr pool1 \<and>
   run pf [Worker 0 os, Worker 0 os, Destroy, Destroy, Worker 0 os] pool1 = Some stuck_pool \<and>
   m_quit stuck_pool \<and> m_tasks stuck_pool = [] \<and> control stuck_pool 0 = Blocked \<and>
   m_cv stuck_pool = [0] \<and> dtor stuck_pool = Joining \<and>
   (\<forall>w os'. step pf (Worker w os') stuck_pool = None) \<and>
   step pf Destroy stuck_pool = None"
proof -
  have reach: "run pf [Worker 0 os, Worker 0 os, Destroy, Destroy, Worker 0 os] pool1 =
      Some stuck_pool"
    by (simp add: pool1_def stuck_pool_def worker_step_def notify_all_def)
  have facts: "m_quit stuck_pool \<and> m_tasks stuck_pool = [] \<and> control stuck_pool 0 = Blocked \<and>
      m_cv stuck_pool = [0] \<and> dtor stuck_pool = Joining"
    by (simp add: stuck_pool_def)
  have workers: "step pf (Worker w os') stuck_pool = None" for w os'
    by (cases "w = 0") (simp_all add: stuck_pool_def worker_step_def)
  have destroyer: "step pf Destroy stuck_pool = None"
    by (simp add: stuck_pool_def)
  from pool1_constructed reach facts workers destroyer show ?thesis
    by blast
qed

end
